theory Spec2Isabelle
  imports Complex_Main "HOL-Library.Multiset"
begin

section \<open>N-Queens by a genetic algorithm: the engine of main.py\<close>

text \<open>
  A board is a Python list of ints: position \<open>i\<close> is a row, the value there is the column of
  the queen of that row. A population is a list of boards. Python's ints are unbounded, so
  board entries, scores and the parameters \<open>n\<close> and \<open>population_size\<close> are of type \<open>int\<close>;
  list positions are of type \<open>nat\<close>.
\<close>

type_synonym board = "int list"
type_synonym population = "board list"

subsection \<open>Fitness: evaluate\_gen and fitness\<close>

text \<open>
  The test of the inner loop body of \<^verbatim>\<open>evaluate_gen\<close>:
  \<^verbatim>\<open>gen[i] == gen[j] or abs(i - j) == abs(gen[i] - gen[j])\<close>.
\<close>

definition conflict :: "board \<Rightarrow> nat \<Rightarrow> nat \<Rightarrow> bool" where
  "conflict gen i j \<longleftrightarrow>
     gen ! i = gen ! j \<or> \<bar>int i - int j\<bar> = \<bar>gen ! i - gen ! j\<bar>"

text \<open>
  \<^verbatim>\<open>
  def evaluate_gen(gen):
      conflict = 0
      for i in range(len(gen)):
          for j in range(i + 1, len(gen)):
              if gen[i] == gen[j] or abs(i - j) == abs(gen[i] - gen[j]):
                  conflict += 1
      return conflict
  \<close>
  Both loops run over ranges, so they are folds over \<open>[0..<len]\<close> and \<open>[i + 1..<len]\<close> that
  thread the counter. Every index read is inside the list.
\<close>

definition evaluate_gen :: "board \<Rightarrow> int" where
  "evaluate_gen gen =
     foldl (\<lambda>c i. foldl (\<lambda>c j. if conflict gen i j then c + 1 else c) c [i + 1..<length gen])
       0 [0..<length gen]"

text \<open>\<^verbatim>\<open>return [evaluate_gen(individual) for individual in population_list]\<close>\<close>

definition fitness :: "population \<Rightarrow> int list" where
  "fitness population_list = map evaluate_gen population_list"

subsection \<open>Python's lists, errors and random numbers\<close>

text \<open>
  The two exceptions the engine can raise. \<^verbatim>\<open>start_algorithm\<close> catches \<^verbatim>\<open>ValueError\<close> and
  shows an error message; an \<^verbatim>\<open>IndexError\<close> is not caught.
\<close>

datatype error = ValueError | IndexError

text \<open>
  A slice bound \<open>k\<close> of a list of length \<open>len\<close>, as Python normalises it: a negative bound
  counts from the end, and the result is clamped to \<open>[0, len]\<close>. \<open>py_take k xs\<close> is
  \<^verbatim>\<open>xs[:k]\<close> and \<open>py_drop k xs\<close> is \<^verbatim>\<open>xs[k:]\<close>.
\<close>

definition slice_index :: "int \<Rightarrow> nat \<Rightarrow> nat" where
  "slice_index k len = (if k < 0 then nat (int len + k) else min (nat k) len)"

definition py_take :: "int \<Rightarrow> 'a list \<Rightarrow> 'a list" where
  "py_take k xs = take (slice_index k (length xs)) xs"

definition py_drop :: "int \<Rightarrow> 'a list \<Rightarrow> 'a list" where
  "py_drop k xs = drop (slice_index k (length xs)) xs"

text \<open>
  The module \<^verbatim>\<open>random\<close> is a shared generator. It is modelled as an explicit source of
  random numbers that is passed to every function that draws from it and returned with what is
  left: a list of naturals, one per random decision, and 0 for ever once the list is used up.
  A decision among \<open>m\<close> alternatives takes the next number modulo \<open>m\<close>, so every outcome of
  every decision is reached by some source, and the sources range over all runs.
\<close>

type_synonym rng = "nat list"

fun draw :: "rng \<Rightarrow> nat \<times> rng" where
  "draw [] = (0, [])"
| "draw (r # g) = (r, g)"

text \<open>\<^verbatim>\<open>randint(a, b)\<close>: an integer of \<open>[a, b]\<close>; \<^verbatim>\<open>ValueError\<close> when the range is empty.\<close>

definition randint :: "int \<Rightarrow> int \<Rightarrow> rng \<Rightarrow> error + (int \<times> rng)" where
  "randint a b g =
     (if b < a then Inl ValueError
      else case draw g of (r, g') \<Rightarrow> Inr (a + int (r mod nat (b - a + 1)), g'))"

subsection \<open>Population construction: build\_population\<close>

text \<open>
  \<^verbatim>\<open>return [[randint(0, n - 1) for _ in range(n)] for _ in range(population_size)]\<close>

  \<open>build_individual k n\<close> is the inner comprehension with \<open>k\<close> elements left to produce,
  \<open>build_individuals k n\<close> the outer one. \<^verbatim>\<open>range(n)\<close> has \<open>nat n\<close> elements.
\<close>

fun build_individual :: "nat \<Rightarrow> int \<Rightarrow> rng \<Rightarrow> error + (board \<times> rng)" where
  "build_individual 0 n g = Inr ([], g)"
| "build_individual (Suc k) n g =
     (case randint 0 (n - 1) g of
        Inl e \<Rightarrow> Inl e
      | Inr (x, g1) \<Rightarrow>
          (case build_individual k n g1 of
             Inl e \<Rightarrow> Inl e
           | Inr (xs, g2) \<Rightarrow> Inr (x # xs, g2)))"

fun build_individuals :: "nat \<Rightarrow> int \<Rightarrow> rng \<Rightarrow> error + (population \<times> rng)" where
  "build_individuals 0 n g = Inr ([], g)"
| "build_individuals (Suc k) n g =
     (case build_individual (nat n) n g of
        Inl e \<Rightarrow> Inl e
      | Inr (b, g1) \<Rightarrow>
          (case build_individuals k n g1 of
             Inl e \<Rightarrow> Inl e
           | Inr (bs, g2) \<Rightarrow> Inr (b # bs, g2)))"

definition build_population :: "int \<Rightarrow> int \<Rightarrow> rng \<Rightarrow> error + (population \<times> rng)" where
  "build_population population_size n g = build_individuals (nat population_size) n g"

subsection \<open>Recombination: crossover\<close>

text \<open>
  \<^verbatim>\<open>
  def crossover(population_list, n):
      div_index = n // 2
      new_population = population_list.copy()
      for i in range(0, len(population_list) - 1, 2):
          child1 = population_list[i][:div_index] + population_list[i + 1][div_index:]
          child2 = population_list[i + 1][:div_index] + population_list[i][div_index:]
          new_population.extend([child1, child2])
      return new_population
  \<close>
  \<open>crossover_loop\<close> is the \<^verbatim>\<open>for\<close> loop from the index \<open>i\<close> on: it goes on while
  \<open>i < len - 1\<close>, that is \<open>i + 1 < len\<close>, in steps of 2. Python's \<^verbatim>\<open>//\<close> is \<open>div\<close> on \<open>int\<close>
  (both round down).
\<close>

function crossover_loop :: "nat \<Rightarrow> population \<Rightarrow> int \<Rightarrow> population \<Rightarrow> population" where
  "crossover_loop i population_list div_index new_population =
     (if i + 1 < length population_list then
        let child1 = py_take div_index (population_list ! i)
                       @ py_drop div_index (population_list ! (i + 1));
            child2 = py_take div_index (population_list ! (i + 1))
                       @ py_drop div_index (population_list ! i)
        in crossover_loop (i + 2) population_list div_index (new_population @ [child1, child2])
      else new_population)"
  by pat_completeness auto
termination
  by (relation "measure (\<lambda>(i, population_list, _, _). length population_list - i)") auto

declare crossover_loop.simps [simp del]

definition crossover :: "population \<Rightarrow> int \<Rightarrow> population" where
  "crossover population_list n = crossover_loop 0 population_list (n div 2) population_list"

text \<open>The two children \<^verbatim>\<open>[child1, child2]\<close> that the loop body appends at index \<open>i\<close>.\<close>

definition pair_children :: "population \<Rightarrow> int \<Rightarrow> nat \<Rightarrow> population" where
  "pair_children population_list div_index i =
     [py_take div_index (population_list ! i) @ py_drop div_index (population_list ! (i + 1)),
      py_take div_index (population_list ! (i + 1)) @ py_drop div_index (population_list ! i)]"

subsection \<open>Selection: eliminate\<close>

text \<open>
  \<^verbatim>\<open>
  def eliminate(population_list, evaluate_list, population_size):
      combined = sorted(zip(evaluate_list, population_list), key=lambda x: x[0])
      if combined[0][0] == 0:
          return [combined[0][1]], [0]
      top = combined[:population_size]
      return [p for _, p in top], [e for e, _ in top]
  \<close>
  \<^verbatim>\<open>sorted\<close> is stable, and so is \<open>sort_key\<close> (an insertion sort that puts an element before
  the equal ones that came after it). \<^verbatim>\<open>combined[0]\<close> raises \<^verbatim>\<open>IndexError\<close> on an empty list.
\<close>

definition eliminate :: "population \<Rightarrow> int list \<Rightarrow> int \<Rightarrow> error + (population \<times> int list)" where
  "eliminate population_list evaluate_list population_size =
     (let combined = sort_key fst (zip evaluate_list population_list) in
      case combined of
        [] \<Rightarrow> Inl IndexError
      | c # _ \<Rightarrow>
          if fst c = 0 then Inr ([snd c], [0])
          else let top = py_take population_size combined
               in Inr (map snd top, map fst top))"

subsection \<open>Floating point: the number of boards to mutate\<close>

text \<open>
  \<^verbatim>\<open>mutation_rate\<close> is a Python float and \<^verbatim>\<open>int(len(mutated_population) * mutation_rate)\<close>
  is computed in binary64 arithmetic: the length is converted to a float, the product is rounded
  to the nearest float, ties to the even mantissa, and \<^verbatim>\<open>int\<close> truncates towards zero. A finite
  float is a rational number, so a float is modelled as the \<open>rat\<close> it denotes and an operation
  as the exact operation followed by \<open>float_round\<close>. Infinities and NaN are not modelled:
  they need an operand of magnitude \<open>2 ^ 1024\<close>, which neither a list length nor a rate of
  \<open>[0, 1]\<close> is.

  \<open>bit_length n\<close> is the number of binary digits of \<open>n\<close> and \<open>ilog2 x\<close>, for \<open>x > 0\<close>, the
  exponent \<open>e\<close> with \<open>2 ^ e \<le> x < 2 ^ (e + 1)\<close>. A binary64 number with exponent \<open>e\<close> is a
  multiple of \<open>2 ^ (e - 52)\<close> (53 significant bits); below \<open>2 ^ - 1022\<close> the spacing stays
  \<open>2 ^ - 1074\<close> (subnormal numbers).
\<close>

fun bit_length :: "nat \<Rightarrow> nat" where
  "bit_length n = (if n = 0 then 0 else Suc (bit_length (n div 2)))"

declare bit_length.simps [simp del]

definition ilog2 :: "rat \<Rightarrow> int" where
  "ilog2 x = (if 1 \<le> x then int (bit_length (nat \<lfloor>x\<rfloor>)) - 1
              else - int (bit_length (nat \<lceil>1 / x\<rceil> - 1)))"

definition round_half_even :: "rat \<Rightarrow> int" where
  "round_half_even x =
     (let f = \<lfloor>x\<rfloor>; r = x - of_int f in
      if r < 1 / 2 then f
      else if 1 / 2 < r then f + 1
      else if even f then f else f + 1)"

definition float_round :: "rat \<Rightarrow> rat" where
  "float_round x =
     (if x = 0 then 0
      else let e = max (ilog2 \<bar>x\<bar>) (- 1022);
               u = 2 powi (e - 52)
           in sgn x * of_int (round_half_even (\<bar>x\<bar> / u)) * u)"

definition float_of_int :: "int \<Rightarrow> rat" where
  "float_of_int k = float_round (of_int k)"

definition float_mul :: "rat \<Rightarrow> rat \<Rightarrow> rat" where
  "float_mul a b = float_round (a * b)"

text \<open>\<^verbatim>\<open>int(x)\<close> of a float: truncation towards zero.\<close>

definition py_int :: "rat \<Rightarrow> int" where
  "py_int x = (if 0 \<le> x then \<lfloor>x\<rfloor> else \<lceil>x\<rceil>)"

subsection \<open>Mutation\<close>

text \<open>
  \<^verbatim>\<open>random.shuffle(x)\<close> of CPython:
  \<^verbatim>\<open>
      for i in reversed(range(1, len(x))):
          j = randbelow(i + 1)
          x[i], x[j] = x[j], x[i]
  \<close>
  \<open>shuffle_loop i\<close> is the loop with the indices \<open>i, i - 1, ..., 1\<close> left to do.
\<close>

fun shuffle_loop :: "nat \<Rightarrow> 'a list \<Rightarrow> rng \<Rightarrow> 'a list \<times> rng" where
  "shuffle_loop 0 x g = (x, g)"
| "shuffle_loop (Suc i) x g =
     (case draw g of (r, g') \<Rightarrow>
        let j = r mod (Suc i + 1)
        in shuffle_loop i (x[Suc i := x ! j, j := x ! Suc i]) g')"

definition shuffle :: "'a list \<Rightarrow> rng \<Rightarrow> 'a list \<times> rng" where
  "shuffle x g = shuffle_loop (length x - 1) x g"

text \<open>
  \<^verbatim>\<open>
  def mutation(population_list, mutation_rate, n):
      mutated_population = list(range(len(population_list) // 2, len(population_list)))
      shuffle(mutated_population)
      chosen_ones = mutated_population[:int(len(mutated_population) * mutation_rate)]
      for i in chosen_ones:
          col = randint(0, n - 1)
          val = randint(0, n - 1)
          population_list[i][col] = val
      return population_list
  \<close>
  \<open>mutate_chosen\<close> is the \<^verbatim>\<open>for\<close> loop. The assignment \<^verbatim>\<open>population_list[i][col] = val\<close>
  changes the board object at position \<open>i\<close> in place and raises \<^verbatim>\<open>IndexError\<close> when \<open>i\<close> or
  \<open>col\<close> is not a position of its list (\<open>col\<close> is never negative). The boards of a population
  are different objects: \<^verbatim>\<open>build_population\<close> and \<^verbatim>\<open>crossover\<close> make every board a new list,
  and \<^verbatim>\<open>eliminate\<close> keeps each at most once. So the assignment changes one position of the
  population, and the population is a list of values.
\<close>

fun mutate_chosen :: "nat list \<Rightarrow> int \<Rightarrow> population \<Rightarrow> rng \<Rightarrow> error + (population \<times> rng)" where
  "mutate_chosen [] n population_list g = Inr (population_list, g)"
| "mutate_chosen (i # chosen) n population_list g =
     (case randint 0 (n - 1) g of
        Inl e \<Rightarrow> Inl e
      | Inr (col, g1) \<Rightarrow>
          (case randint 0 (n - 1) g1 of
             Inl e \<Rightarrow> Inl e
           | Inr (val, g2) \<Rightarrow>
               if i < length population_list \<and> nat col < length (population_list ! i) then
                 mutate_chosen chosen n
                   (population_list[i := (population_list ! i)[nat col := val]]) g2
               else Inl IndexError))"

text \<open>The list \<^verbatim>\<open>chosen_ones\<close>, and what is left of the random source after the shuffle.\<close>

definition chosen_ones :: "population \<Rightarrow> rat \<Rightarrow> rng \<Rightarrow> nat list \<times> rng" where
  "chosen_ones population_list mutation_rate g =
     (case shuffle [length population_list div 2..<length population_list] g of
        (mutated_population, g1) \<Rightarrow>
          (py_take (py_int (float_mul (float_of_int (int (length mutated_population)))
                                      mutation_rate))
                   mutated_population, g1))"

definition mutation :: "population \<Rightarrow> rat \<Rightarrow> int \<Rightarrow> rng \<Rightarrow> error + (population \<times> rng)" where
  "mutation population_list mutation_rate n g =
     (case chosen_ones population_list mutation_rate g of
        (chosen, g1) \<Rightarrow> mutate_chosen chosen n population_list g1)"

subsection \<open>The outer loop of start\_algorithm\<close>

text \<open>
  The engine is the part of \<^verbatim>\<open>start_algorithm\<close> after the three input fields have been read
  and checked, lines 157 to 170 of main.py:
  \<^verbatim>\<open>
        generations = n * 2
        population = build_population(pop_size, n)
        for gen in range(generations):
            population = crossover(population, n)
            population = mutation(population, mut_rate, n)
            scores = fitness(population)
            population, scores = eliminate(population, scores, pop_size)
            if 0 in scores:
                draw_board(population[0], gen + 1)
                return
        draw_board(population[0], None)
  \<close>
  Its result is the call of \<^verbatim>\<open>draw_board\<close>: \<open>Solved b k\<close> for \<^verbatim>\<open>draw_board(b, k)\<close> and
  \<open>Exhausted b\<close> for \<^verbatim>\<open>draw_board(b, None)\<close>. \<open>one_generation\<close> is the loop body up to the
  test, \<open>for_generations\<close> the loop over the generation indices still to come.
\<close>

datatype outcome = Solved board nat | Exhausted board

definition one_generation ::
  "int \<Rightarrow> int \<Rightarrow> rat \<Rightarrow> population \<Rightarrow> rng \<Rightarrow> error + (population \<times> int list \<times> rng)" where
  "one_generation n pop_size mut_rate population g =
     (case mutation (crossover population n) mut_rate n g of
        Inl e \<Rightarrow> Inl e
      | Inr (population1, g1) \<Rightarrow>
          (case eliminate population1 (fitness population1) pop_size of
             Inl e \<Rightarrow> Inl e
           | Inr (population2, scores) \<Rightarrow> Inr (population2, scores, g1)))"

fun for_generations ::
  "nat list \<Rightarrow> int \<Rightarrow> int \<Rightarrow> rat \<Rightarrow> population \<Rightarrow> rng \<Rightarrow> error + outcome" where
  "for_generations [] n pop_size mut_rate population g =
     (case population of [] \<Rightarrow> Inl IndexError | b # _ \<Rightarrow> Inr (Exhausted b))"
| "for_generations (gen # gens) n pop_size mut_rate population g =
     (case one_generation n pop_size mut_rate population g of
        Inl e \<Rightarrow> Inl e
      | Inr (population', scores, g') \<Rightarrow>
          if 0 \<in> set scores then
            (case population' of [] \<Rightarrow> Inl IndexError | b # _ \<Rightarrow> Inr (Solved b (gen + 1)))
          else for_generations gens n pop_size mut_rate population' g')"

definition engine :: "int \<Rightarrow> int \<Rightarrow> rat \<Rightarrow> rng \<Rightarrow> error + outcome" where
  "engine n pop_size mut_rate g =
     (let generations = n * 2 in
      case build_population pop_size n g of
        Inl e \<Rightarrow> Inl e
      | Inr (population, g0) \<Rightarrow>
          for_generations [0..<nat generations] n pop_size mut_rate population g0)"

subsection \<open>start\_algorithm: the input checks around the loop\<close>

text \<open>
  \<^verbatim>\<open>
    def start_algorithm():
        try:
            n = int(entry_n.get())
            pop_size = int(entry_pop.get())
            mut_rate_str = entry_mut.get()
            mut_rate = float(mut_rate_str)
            if n < 4 or n > 10:
                result_label.config(text="Board size must be between 4 and 10")
                return
            if pop_size <= 0 or pop_size > 500:
                result_label.config(text="Population size must be between 1 and 500")
                return
            if not (0 <= mut_rate <= 1):
                result_label.config(text="Mutation rate must be between 0 and 1")
                return
            if len(mut_rate_str.split('.')[-1]) > 2:
                result_label.config(text="Mutation rate must have at most 2 decimal places")
                return
            ... the loop, lines 157 to 170 ...
        except ValueError:
            result_label.config(text="Please enter valid numbers.")
  \<close>
  The function reads three text fields. The conversions \<^verbatim>\<open>int(...)\<close> and \<^verbatim>\<open>float(...)\<close> of
  Python's library are not modelled: the parameters \<open>entry_n\<close>, \<open>entry_pop\<close> and \<open>entry_mut\<close> are
  their results, \<open>None\<close> for a text that does not convert (the conversion raises
  \<^verbatim>\<open>ValueError\<close>, whatever the other fields hold), and \<open>mut_rate_str\<close> is the text of the third
  field. The rate is a finite float; an infinity or a NaN fails the test
  \<^verbatim>\<open>0 <= mut_rate <= 1\<close> as a number outside the interval does. What the function shows is a
  value of \<open>display\<close>: one of the five messages, or \<open>Drawn out\<close> for the call of \<^verbatim>\<open>draw_board\<close>
  that ends the loop. A \<^verbatim>\<open>ValueError\<close> raised inside the loop is caught by the same handler; an
  \<^verbatim>\<open>IndexError\<close> is not caught.
\<close>

datatype display =
    BoardSizeMessage
  | PopulationSizeMessage
  | MutationRateMessage
  | DecimalPlacesMessage
  | ValidNumbersMessage
  | Drawn outcome

text \<open>
  \<^verbatim>\<open>mut_rate_str.split('.')[-1]\<close>: the part of the text after its last dot, the whole text when
  it has no dot.
\<close>

definition last_part :: "string \<Rightarrow> string" where
  "last_part mut_rate_str = rev (takeWhile (\<lambda>c. c \<noteq> CHR ''.'') (rev mut_rate_str))"

definition start_algorithm ::
  "int option \<Rightarrow> int option \<Rightarrow> string \<Rightarrow> rat option \<Rightarrow> rng \<Rightarrow> error + display" where
  "start_algorithm entry_n entry_pop mut_rate_str entry_mut g =
     (case entry_n of
        None \<Rightarrow> Inr ValidNumbersMessage
      | Some n \<Rightarrow>
     (case entry_pop of
        None \<Rightarrow> Inr ValidNumbersMessage
      | Some pop_size \<Rightarrow>
     (case entry_mut of
        None \<Rightarrow> Inr ValidNumbersMessage
      | Some mut_rate \<Rightarrow>
          if n < 4 \<or> n > 10 then Inr BoardSizeMessage
          else if pop_size \<le> 0 \<or> pop_size > 500 then Inr PopulationSizeMessage
          else if \<not> (0 \<le> mut_rate \<and> mut_rate \<le> 1) then Inr MutationRateMessage
          else if length (last_part mut_rate_str) > 2 then Inr DecimalPlacesMessage
          else (case engine n pop_size mut_rate g of
                  Inl ValueError \<Rightarrow> Inr ValidNumbersMessage
                | Inl IndexError \<Rightarrow> Inl IndexError
                | Inr out \<Rightarrow> Inr (Drawn out)))))"

subsection \<open>Notions of the specification\<close>

text \<open>
  The board invariant: a board of size \<open>n\<close> has length \<open>n\<close> and every value in \<open>[0, n - 1]\<close>.
\<close>

definition valid_board :: "int \<Rightarrow> board \<Rightarrow> bool" where
  "valid_board n b \<longleftrightarrow> int (length b) = n \<and> (\<forall>x\<in>set b. 0 \<le> x \<and> x < n)"

definition valid_population :: "int \<Rightarrow> population \<Rightarrow> bool" where
  "valid_population n population \<longleftrightarrow> (\<forall>b\<in>set population. valid_board n b)"

text \<open>
  The population and the random source after \<open>k\<close> executions of the loop body, whatever the
  scores were.
\<close>

fun generations_run ::
  "nat \<Rightarrow> int \<Rightarrow> int \<Rightarrow> rat \<Rightarrow> population \<Rightarrow> rng \<Rightarrow> error + (population \<times> rng)" where
  "generations_run 0 n pop_size mut_rate population g = Inr (population, g)"
| "generations_run (Suc k) n pop_size mut_rate population g =
     (case one_generation n pop_size mut_rate population g of
        Inl e \<Rightarrow> Inl e
      | Inr (population', scores, g') \<Rightarrow> generations_run k n pop_size mut_rate population' g')"

text \<open>
  Whether the population after \<open>j\<close> executions of the loop body holds a board without
  conflicts (the scores that \<open>eliminate\<close> returns are the fitness of the boards it returns).
\<close>

definition zero_reached :: "nat \<Rightarrow> int \<Rightarrow> int \<Rightarrow> rat \<Rightarrow> population \<Rightarrow> rng \<Rightarrow> bool" where
  "zero_reached j n pop_size mut_rate population g =
     (case generations_run j n pop_size mut_rate population g of
        Inl e \<Rightarrow> False
      | Inr (p, g') \<Rightarrow> 0 \<in> set (fitness p))"

text \<open>
  The loop of \<open>for_generations\<close> with a counter of the executions of its body added: it
  returns the outcome together with the number of generations that were run.
\<close>

fun counted_generations ::
  "nat list \<Rightarrow> int \<Rightarrow> int \<Rightarrow> rat \<Rightarrow> population \<Rightarrow> rng \<Rightarrow> nat \<Rightarrow> error + (outcome \<times> nat)" where
  "counted_generations [] n pop_size mut_rate population g cycles =
     (case population of [] \<Rightarrow> Inl IndexError | b # _ \<Rightarrow> Inr (Exhausted b, cycles))"
| "counted_generations (gen # gens) n pop_size mut_rate population g cycles =
     (case one_generation n pop_size mut_rate population g of
        Inl e \<Rightarrow> Inl e
      | Inr (population', scores, g') \<Rightarrow>
          if 0 \<in> set scores then
            (case population' of
               [] \<Rightarrow> Inl IndexError
             | b # _ \<Rightarrow> Inr (Solved b (gen + 1), cycles + 1))
          else counted_generations gens n pop_size mut_rate population' g' (cycles + 1))"

section \<open>Properties of the fitness\<close>

lemma inner_count:
  "foldl (\<lambda>c j. if P j then c + 1 else c) (c::int) xs = c + int (length (filter P xs))"
  by (induction xs arbitrary: c) auto

lemma outer_sum:
  "foldl (\<lambda>c i. c + f i) (c::int) xs = c + sum_list (map f xs)"
  by (induction xs arbitrary: c) auto

lemma evaluate_gen_sum:
  "evaluate_gen gen =
     (\<Sum>i\<leftarrow>[0..<length gen]. int (length (filter (conflict gen i) [Suc i..<length gen])))"
  by (simp add: evaluate_gen_def inner_count outer_sum)

lemma evaluate_gen_card:
  "evaluate_gen gen =
     int (card {(i, j). i < j \<and> j < length gen \<and> conflict gen i j})"
proof -
  let ?n = "length gen"
  let ?B = "\<lambda>i. {j \<in> {Suc i..<?n}. conflict gen i j}"
  have len: "length (filter (conflict gen i) [Suc i..<?n]) = card (?B i)" for i
  proof -
    have "length (filter (conflict gen i) [Suc i..<?n])
            = card (set (filter (conflict gen i) [Suc i..<?n]))"
      by (rule distinct_card [symmetric]) simp
    also have "set (filter (conflict gen i) [Suc i..<?n]) = ?B i"
      by auto
    finally show ?thesis .
  qed
  have set_eq: "{(i, j). i < j \<and> j < ?n \<and> conflict gen i j} = (SIGMA i:{0..<?n}. ?B i)"
    by auto
  have "evaluate_gen gen = (\<Sum>i\<leftarrow>[0..<?n]. int (card (?B i)))"
    by (simp add: evaluate_gen_sum len)
  also have "\<dots> = (\<Sum>i\<in>{0..<?n}. int (card (?B i)))"
    by (simp add: interv_sum_list_conv_sum_set_nat)
  also have "\<dots> = int (\<Sum>i\<in>{0..<?n}. card (?B i))"
    by simp
  also have "(\<Sum>i\<in>{0..<?n}. card (?B i)) = card (SIGMA i:{0..<?n}. ?B i)"
    by (rule card_SigmaI [symmetric]) auto
  finally show ?thesis
    by (simp only: set_eq)
qed

lemma exclusive_conditions:
  "i \<noteq> j \<Longrightarrow> \<not> ((gen::board) ! i = gen ! j \<and> \<bar>int i - int j\<bar> = \<bar>gen ! i - gen ! j\<bar>)"
  by auto

lemma pairs_total: "(\<Sum>i\<leftarrow>[0..<n]. int (n - Suc i)) = int (n * (n - 1) div 2)"
proof (induction n)
  case 0
  show ?case by simp
next
  case (Suc n)
  have "(\<Sum>i\<leftarrow>[0..<Suc n]. int (Suc n - Suc i))
          = (\<Sum>i\<leftarrow>[0..<n]. int (n - i))"
    by simp
  also have "\<dots> = (\<Sum>i\<leftarrow>[0..<n]. int (n - Suc i) + 1)"
    by (rule arg_cong [where f = sum_list], rule map_cong) auto
  also have "\<dots> = (\<Sum>i\<leftarrow>[0..<n]. int (n - Suc i)) + int n"
    by (simp add: sum_list_addf sum_list_triv)
  also have "\<dots> = int (n * (n - 1) div 2) + int n"
    by (simp only: Suc.IH)
  also have "\<dots> = int (Suc n * (Suc n - 1) div 2)"
  proof -
    have "n * (n - 1) div 2 + n = (n * (n - 1) + n * 2) div 2"
      by simp
    also have "n * (n - 1) + n * 2 = Suc n * n"
      by (cases n) auto
    finally show ?thesis by simp
  qed
  finally show ?case .
qed

lemma evaluate_gen_nonneg: "0 \<le> evaluate_gen gen"
  by (simp add: evaluate_gen_card)

lemma evaluate_gen_upper: "evaluate_gen gen \<le> int (length gen * (length gen - 1) div 2)"
proof -
  let ?n = "length gen"
  have "evaluate_gen gen \<le> (\<Sum>i\<leftarrow>[0..<?n]. int (?n - Suc i))"
    unfolding evaluate_gen_sum
  proof (rule sum_list_mono)
    fix i
    have "length (filter (conflict gen i) [Suc i..<?n]) \<le> length [Suc i..<?n]"
      by (rule length_filter_le)
    then show "int (length (filter (conflict gen i) [Suc i..<?n])) \<le> int (?n - Suc i)"
      by simp
  qed
  then show ?thesis
    by (simp only: pairs_total)
qed

lemma evaluate_gen_same_column:
  "evaluate_gen (replicate n c) = int (n * (n - 1) div 2)"
proof -
  have all: "filter (conflict (replicate n c) i) [Suc i..<n] = [Suc i..<n]" if "i < n" for i
    using that by (auto simp: conflict_def filter_id_conv)
  have "evaluate_gen (replicate n c) = (\<Sum>i\<leftarrow>[0..<n]. int (n - Suc i))"
    unfolding evaluate_gen_sum length_replicate
    by (rule arg_cong [where f = sum_list], rule map_cong) (simp_all add: all)
  then show ?thesis
    by (simp only: pairs_total)
qed

text \<open>
  C1. For every board, \<open>evaluate_gen\<close> is the number of pairs of rows \<open>i < j\<close> whose queens
  share a column or a diagonal, each such pair counted once; the two conditions never hold
  together for one pair of different rows; and the board \<open>[1, 3, 0, 2]\<close> has fitness 0.
\<close>

theorem evaluate_gen_counts_conflicting_pairs:
  "evaluate_gen gen =
     int (card {(i, j). i < j \<and> j < length gen \<and>
                  (gen ! i = gen ! j \<or> \<bar>int i - int j\<bar> = \<bar>gen ! i - gen ! j\<bar>)})
   \<and> (\<forall>i j. i < j \<longrightarrow>
         \<not> (gen ! i = gen ! j \<and> \<bar>int i - int j\<bar> = \<bar>gen ! i - gen ! j\<bar>))
   \<and> evaluate_gen [1, 3, 0, 2] = 0"
proof (intro conjI)
  show "evaluate_gen gen =
     int (card {(i, j). i < j \<and> j < length gen \<and>
                  (gen ! i = gen ! j \<or> \<bar>int i - int j\<bar> = \<bar>gen ! i - gen ! j\<bar>)})"
    using evaluate_gen_card [of gen] by (simp only: conflict_def)
  show "\<forall>i j. i < j \<longrightarrow>
         \<not> (gen ! i = gen ! j \<and> \<bar>int i - int j\<bar> = \<bar>gen ! i - gen ! j\<bar>)"
    using exclusive_conditions [of _ _ gen] by (metis less_irrefl)
  show "evaluate_gen [1, 3, 0, 2] = 0"
    by (simp add: evaluate_gen_def conflict_def upt_rec)
qed

theorem evaluate_gen_counts_conflicting_pairs_witness:
  "evaluate_gen [0, 1, 0] = 3
   \<and> card {(i, j). i < j \<and> j < length [0, 1, 0 :: int] \<and>
             ([0, 1, 0 :: int] ! i = [0, 1, 0] ! j
              \<or> \<bar>int i - int j\<bar> = \<bar>[0, 1, 0 :: int] ! i - [0, 1, 0] ! j\<bar>)} = 3
   \<and> (0::nat) < 2 \<and> [0, 1, 0 :: int] ! 0 = [0, 1, 0] ! 2
   \<and> \<bar>int 0 - int 2\<bar> \<noteq> \<bar>[0, 1, 0 :: int] ! 0 - [0, 1, 0] ! 2\<bar>"
proof -
  have e: "evaluate_gen [0, 1, 0] = 3"
    by (simp add: evaluate_gen_def conflict_def upt_rec)
  have c: "int (card {(i, j). i < j \<and> j < length [0, 1, 0 :: int] \<and>
             ([0, 1, 0 :: int] ! i = [0, 1, 0] ! j
              \<or> \<bar>int i - int j\<bar> = \<bar>[0, 1, 0 :: int] ! i - [0, 1, 0] ! j\<bar>)}) = 3"
    using evaluate_gen_counts_conflicting_pairs [of "[0, 1, 0]"] e by (simp only:)
  have x: "\<not> ([0, 1, 0 :: int] ! 0 = [0, 1, 0] ! 2
             \<and> \<bar>int 0 - int 2\<bar> = \<bar>[0, 1, 0 :: int] ! 0 - [0, 1, 0] ! 2\<bar>)"
    using evaluate_gen_counts_conflicting_pairs [of "[0, 1, 0]"] by simp
  from c have c': "card {(i, j). i < j \<and> j < length [0, 1, 0 :: int] \<and>
             ([0, 1, 0 :: int] ! i = [0, 1, 0] ! j
              \<or> \<bar>int i - int j\<bar> = \<bar>[0, 1, 0 :: int] ! i - [0, 1, 0] ! j\<bar>)} = 3"
    by linarith
  from e c' x show ?thesis by simp
qed

text \<open>
  C7. The fitness of a board of length \<open>N\<close> is a non-negative integer of at most
  \<open>N * (N - 1) / 2\<close>, and a board whose \<open>N\<close> queens are all in one column has fitness exactly
  \<open>N * (N - 1) / 2\<close>.
\<close>

theorem evaluate_gen_bounds:
  "0 \<le> evaluate_gen gen
   \<and> evaluate_gen gen \<le> int (length gen * (length gen - 1) div 2)
   \<and> evaluate_gen (replicate n c) = int (n * (n - 1) div 2)"
  by (simp only: evaluate_gen_nonneg evaluate_gen_upper evaluate_gen_same_column)

section \<open>Recombination\<close>

lemma crossover_loop_unfold:
  "crossover_loop i pop d new =
     new @ concat (map (\<lambda>k. pair_children pop d (i + 2 * k)) [0..<(length pop - i) div 2])"
proof (induction i pop d new rule: crossover_loop.induct)
  case (1 i pop d new)
  show ?case
  proof (cases "i + 1 < length pop")
    case True
    define m where "m = (length pop - (i + 2)) div 2"
    have "(length pop - i) div 2 = Suc ((length pop - i - 2) div 2)"
      using True by (intro le_div_geq) auto
    then have m: "(length pop - i) div 2 = Suc m" "(length pop - (i + 2)) div 2 = m"
      by (simp_all add: m_def)
    have shift: "map (\<lambda>k. pair_children pop d (i + 2 * k)) [0..<Suc m]
                   = pair_children pop d i # map (\<lambda>k. pair_children pop d (i + 2 + 2 * k)) [0..<m]"
      by (simp add: upt_conv_Cons map_Suc_upt [symmetric] del: upt_Suc)
    have "crossover_loop i pop d new
            = crossover_loop (i + 2) pop d (new @ pair_children pop d i)"
      using True by (subst crossover_loop.simps) (simp add: pair_children_def Let_def)
    also have "\<dots> = (new @ pair_children pop d i)
                 @ concat (map (\<lambda>k. pair_children pop d (i + 2 + 2 * k)) [0..<m])"
      using "1.IH" [OF True refl refl] m(2) by (simp add: pair_children_def)
    finally show ?thesis
      by (simp only: m(1) shift) simp
  next
    case False
    then have "(length pop - i) div 2 = 0" by simp
    with False show ?thesis by (subst crossover_loop.simps) simp
  qed
qed

lemma concat_pairs_length:
  "length (concat (map (\<lambda>k. [f k, g k]) [0..<m])) = 2 * m"
  by (induction m) auto

lemma concat_pairs_nth:
  "k < m \<Longrightarrow> concat (map (\<lambda>k. [f k, g k]) [0..<m]) ! (2 * k) = f k
     \<and> concat (map (\<lambda>k. [f k, g k]) [0..<m]) ! (2 * k + 1) = g k"
proof (induction m)
  case 0
  then show ?case by simp
next
  case (Suc m)
  show ?case
  proof (cases "k < m")
    case True
    with Suc.IH show ?thesis
      by (simp add: nth_append concat_pairs_length)
  next
    case False
    with Suc.prems have "k = m" by simp
    then show ?thesis
      by (simp add: nth_append concat_pairs_length)
  qed
qed

lemma py_take_nonneg: "0 \<le> k \<Longrightarrow> py_take k xs = take (nat k) xs"
  by (simp add: py_take_def slice_index_def min_def)

lemma py_drop_nonneg: "0 \<le> k \<Longrightarrow> py_drop k xs = drop (nat k) xs"
  by (simp add: py_drop_def slice_index_def min_def)

lemma crossover_unfold:
  "crossover pop n =
     pop @ concat (map (\<lambda>k. [py_take (n div 2) (pop ! (2 * k)) @ py_drop (n div 2) (pop ! (2 * k + 1)),
                               py_take (n div 2) (pop ! (2 * k + 1)) @ py_drop (n div 2) (pop ! (2 * k))])
                    [0..<length pop div 2])"
  by (simp add: crossover_def crossover_loop_unfold pair_children_def)

lemma length_crossover: "length (crossover pop n) = length pop + 2 * (length pop div 2)"
  by (simp only: crossover_unfold length_append concat_pairs_length)

lemma take_crossover: "take (length pop) (crossover pop n) = pop"
  by (simp add: crossover_unfold)

lemma crossover_children:
  assumes "k < length pop div 2"
  shows "crossover pop n ! (length pop + 2 * k)
           = py_take (n div 2) (pop ! (2 * k)) @ py_drop (n div 2) (pop ! (2 * k + 1))
       \<and> crossover pop n ! (length pop + 2 * k + 1)
           = py_take (n div 2) (pop ! (2 * k + 1)) @ py_drop (n div 2) (pop ! (2 * k))"
proof -
  let ?f = "\<lambda>k. py_take (n div 2) (pop ! (2 * k)) @ py_drop (n div 2) (pop ! (2 * k + 1))"
  let ?g = "\<lambda>k. py_take (n div 2) (pop ! (2 * k + 1)) @ py_drop (n div 2) (pop ! (2 * k))"
  let ?cs = "concat (map (\<lambda>k. [?f k, ?g k]) [0..<length pop div 2])"
  have c: "crossover pop n = pop @ ?cs"
    by (rule crossover_unfold)
  have "(pop @ ?cs) ! (length pop + 2 * k) = ?cs ! (2 * k)"
    by (rule nth_append_length_plus)
  moreover have "(pop @ ?cs) ! (length pop + 2 * k + 1) = ?cs ! (2 * k + 1)"
    using nth_append_length_plus [of pop ?cs "2 * k + 1"] by (simp only: add.assoc)
  ultimately show ?thesis
    using concat_pairs_nth [OF assms, of ?f ?g] by (simp only: c)
qed

lemma crossover_small: "length pop < 2 \<Longrightarrow> crossover pop n = pop"
  by (simp add: crossover_unfold)

text \<open>
  C3. For a population of \<open>M\<close> boards and a board size \<open>N\<close>, \<open>crossover\<close> returns
  \<open>M + 2 * (M div 2)\<close> boards; the first \<open>M\<close> are the given boards, unchanged and in
  order; for each pair \<open>(2k, 2k + 1)\<close> the two boards at \<open>M + 2k\<close> and \<open>M + 2k + 1\<close> are the
  first \<open>N div 2\<close> entries of one parent followed by the remaining entries of the other; and
  a population of fewer than two boards gets no children.
\<close>

theorem crossover_spec:
  assumes "0 \<le> n"
  shows "length (crossover pop n) = length pop + 2 * (length pop div 2)
     \<and> take (length pop) (crossover pop n) = pop
     \<and> (\<forall>k<length pop div 2.
          crossover pop n ! (length pop + 2 * k)
            = take (nat (n div 2)) (pop ! (2 * k)) @ drop (nat (n div 2)) (pop ! (2 * k + 1))
        \<and> crossover pop n ! (length pop + 2 * k + 1)
            = take (nat (n div 2)) (pop ! (2 * k + 1)) @ drop (nat (n div 2)) (pop ! (2 * k)))
     \<and> (length pop < 2 \<longrightarrow> crossover pop n = pop)"
proof -
  from assms have d: "0 \<le> n div 2" by simp
  have "crossover pop n ! (length pop + 2 * k)
            = take (nat (n div 2)) (pop ! (2 * k)) @ drop (nat (n div 2)) (pop ! (2 * k + 1))
        \<and> crossover pop n ! (length pop + 2 * k + 1)
            = take (nat (n div 2)) (pop ! (2 * k + 1)) @ drop (nat (n div 2)) (pop ! (2 * k))"
    if "k < length pop div 2" for k
    using crossover_children [OF that, of n]
    by (simp only: py_take_nonneg [OF d] py_drop_nonneg [OF d])
  then show ?thesis
    using length_crossover [of pop n] take_crossover [of pop n] crossover_small [of pop n]
    by blast
qed

theorem crossover_spec_witness:
  "(0::int) \<le> 4
   \<and> length (crossover [[0, 1, 2, 3], [3, 2, 1, 0], [1, 1, 1, 1]] 4) = 5
   \<and> take 3 (crossover [[0, 1, 2, 3], [3, 2, 1, 0], [1, 1, 1, 1]] 4)
       = [[0, 1, 2, 3], [3, 2, 1, 0], [1, 1, 1, 1]]
   \<and> crossover [[0, 1, 2, 3], [3, 2, 1, 0], [1, 1, 1, 1]] 4 ! 3 = [0, 1, 1, 0]
   \<and> crossover [[0, 1, 2, 3], [3, 2, 1, 0], [1, 1, 1, 1]] 4 ! 4 = [3, 2, 2, 3]
   \<and> crossover [[2, 0, 3, 1]] 4 = [[2, 0, 3, 1]]"
proof -
  have h: "(0::int) \<le> 4" by simp
  have l3: "length [[0, 1, 2, 3], [3, 2, 1, 0], [1, 1, 1, 1 :: int]] = 3" by simp
  have l1: "length [[2, 0, 3, 1 :: int]] = 1" by simp
  show ?thesis
    using crossover_spec [OF h, of "[[0, 1, 2, 3], [3, 2, 1, 0], [1, 1, 1, 1]]", unfolded l3]
      crossover_spec [OF h, of "[[2, 0, 3, 1]]", unfolded l1]
    by simp
qed

section \<open>Selection\<close>

lemma map_insort_key: "map f (insort_key f x xs) = insort (f x) (map f xs)"
  by (induction xs) auto

lemma map_sort_key: "map f (sort_key f xs) = sort (map f xs)"
  by (induction xs) (auto simp: map_insort_key)

lemma sorted_hd_Min: "sorted xs \<Longrightarrow> xs \<noteq> [] \<Longrightarrow> hd xs = Min (set xs)"
  by (cases xs) (auto intro!: Min_eqI [symmetric])

lemma set_py_take: "set (py_take k xs) \<subseteq> set xs"
  by (simp add: py_take_def set_take_subset)

lemma combined_first:
  assumes "length evaluate_list = length population_list" "population_list \<noteq> []"
  shows "\<exists>c cs. sort_key fst (zip evaluate_list population_list) = c # cs
           \<and> fst c = Min (set evaluate_list)
           \<and> c \<in> set (zip evaluate_list population_list)"
proof -
  let ?z = "zip evaluate_list population_list"
  from assms have "?z \<noteq> []" by (cases evaluate_list; cases population_list) auto
  then have "sort_key fst ?z \<noteq> []"
    by (metis length_sort length_0_conv)
  then obtain c cs where c: "sort_key fst ?z = c # cs"
    by (cases "sort_key fst ?z") auto
  have m: "map fst (sort_key fst ?z) = sort evaluate_list"
    using assms(1) by (simp add: map_sort_key)
  have "fst c = hd (sort evaluate_list)"
    using m c by (metis list.sel(1) list.simps(9))
  also have "\<dots> = Min (set evaluate_list)"
  proof -
    have "sort evaluate_list \<noteq> []"
      using assms by (metis length_sort length_0_conv)
    then show ?thesis
      using sorted_hd_Min [of "sort evaluate_list"] by simp
  qed
  finally have "fst c = Min (set evaluate_list)" .
  moreover have "c \<in> set ?z"
    using c by (metis list.set_intros(1) set_sort)
  ultimately show ?thesis using c by blast
qed

text \<open>
  C2. For a non-empty population with a score list of the same length and a target size
  \<open>P \<ge> 1\<close>, \<open>eliminate\<close> returns the boards in ascending order of score (the stable sort of
  the pairs); if the least score is 0 it returns exactly one board, one whose score is 0, with
  the scores \<open>[0]\<close>; otherwise it returns the first \<open>P\<close> pairs of the sorted list as two
  parallel lists, so at most \<open>P\<close> boards, the scores being the \<open>P\<close> lowest, sorted ascending,
  none below the first.
\<close>

theorem eliminate_spec:
  assumes "length evaluate_list = length population_list"
    and "population_list \<noteq> []"
    and "1 \<le> P"
  shows "\<exists>boards scores.
           eliminate population_list evaluate_list P = Inr (boards, scores)
         \<and> (Min (set evaluate_list) = 0 \<longrightarrow>
               scores = [0]
             \<and> (\<exists>b. boards = [b] \<and> (0, b) \<in> set (zip evaluate_list population_list)))
         \<and> (Min (set evaluate_list) \<noteq> 0 \<longrightarrow>
               zip scores boards = take (nat P) (sort_key fst (zip evaluate_list population_list))
             \<and> length boards = length scores
             \<and> length boards = min (nat P) (length population_list)
             \<and> scores = take (nat P) (sort evaluate_list)
             \<and> sorted scores
             \<and> (\<forall>s\<in>set scores. hd scores \<le> s))"
proof -
  let ?z = "zip evaluate_list population_list"
  let ?top = "take (nat P) (sort_key fst ?z)"
  from combined_first [OF assms(1,2)] obtain c cs where
    c: "sort_key fst ?z = c # cs" "fst c = Min (set evaluate_list)" "c \<in> set ?z"
    by blast
  have P: "0 \<le> P" using assms(3) by simp
  show ?thesis
  proof (cases "Min (set evaluate_list) = 0")
    case True
    then have "eliminate population_list evaluate_list P = Inr ([snd c], [0])"
      using c by (simp add: eliminate_def)
    moreover have "(0, snd c) \<in> set ?z"
      using c True by (metis prod.collapse)
    ultimately show ?thesis using True by simp
  next
    case False
    have e: "eliminate population_list evaluate_list P = Inr (map snd ?top, map fst ?top)"
      using c False by (simp add: eliminate_def Let_def py_take_nonneg [OF P])
    have s: "map fst ?top = take (nat P) (sort evaluate_list)"
      using assms(1) by (simp add: take_map [symmetric] map_sort_key)
    have z: "zip (map fst ?top) (map snd ?top) = ?top"
      by (simp add: zip_map_fst_snd)
    have l: "length (map snd ?top) = min (nat P) (length population_list)"
      using assms(1) by simp
    have srt: "sorted (map fst ?top)"
      unfolding s by (simp add: sorted_wrt_take)
    have hd_le: "\<forall>x\<in>set (map fst ?top). hd (map fst ?top) \<le> x"
      using srt by (cases "map fst ?top") auto
    show ?thesis
      using False e s z l srt hd_le assms(1) by simp
  qed
qed

theorem eliminate_spec_witness:
  "length [2, 0, 1 :: int] = length [[0, 0, 0, 1], [1, 3, 0, 2], [1, 3, 0, 0 :: int]]
   \<and> [[0, 0, 0, 1], [1, 3, 0, 2], [1, 3, 0, 0 :: int]] \<noteq> [] \<and> (1 :: int) \<le> 2
   \<and> Min (set [2, 0, 1 :: int]) = 0
   \<and> eliminate [[0, 0, 0, 1], [1, 3, 0, 2], [1, 3, 0, 0]] [2, 0, 1] 2 = Inr ([[1, 3, 0, 2]], [0])
   \<and> length [3, 1, 2 :: int] = length [[0, 0, 0], [1, 3, 0, 3], [1, 3, 0, 0 :: int]]
   \<and> Min (set [3, 1, 2 :: int]) \<noteq> 0
   \<and> eliminate [[0, 0, 0], [1, 3, 0, 3], [1, 3, 0, 0]] [3, 1, 2] 2
       = Inr ([[1, 3, 0, 3], [1, 3, 0, 0]], [1, 2])"
proof -
  have h1: "length [2, 0, 1 :: int] = length [[0, 0, 0, 1], [1, 3, 0, 2], [1, 3, 0, 0 :: int]]"
    by simp
  have h2: "[[0, 0, 0, 1], [1, 3, 0, 2], [1, 3, 0, 0 :: int]] \<noteq> []" by simp
  have h3: "(1 :: int) \<le> 2" by simp
  have h1': "length [3, 1, 2 :: int] = length [[0, 0, 0], [1, 3, 0, 3], [1, 3, 0, 0 :: int]]"
    by simp
  have h2': "[[0, 0, 0], [1, 3, 0, 3], [1, 3, 0, 0 :: int]] \<noteq> []" by simp
  show ?thesis
    using eliminate_spec [OF h1 h2 h3] eliminate_spec [OF h1' h2' h3]
    by (auto simp: eliminate_def py_take_def slice_index_def)
qed

lemma fitness_pairs:
  "\<forall>c\<in>set (zip (fitness pop) pop). fst c = evaluate_gen (snd c)"
  by (auto simp: fitness_def in_set_zip)

text \<open>
  C10. When every input score is the fitness of the board at the same position, the two lists
  that \<open>eliminate\<close> returns have the same length and every returned score is the fitness of
  the returned board at the same position (also the \<open>[0]\<close> of the early return).
\<close>

theorem eliminate_keeps_scores_consistent:
  assumes "population_list \<noteq> []"
  shows "\<exists>boards scores.
           eliminate population_list (fitness population_list) P = Inr (boards, scores)
         \<and> length boards = length scores
         \<and> scores = fitness boards"
proof -
  let ?z = "zip (fitness population_list) population_list"
  have len: "length (fitness population_list) = length population_list"
    by (simp add: fitness_def)
  from combined_first [OF len assms] obtain c cs where
    c: "sort_key fst ?z = c # cs" "c \<in> set ?z"
    by blast
  have cons: "\<forall>c\<in>set (sort_key fst ?z). fst c = evaluate_gen (snd c)"
    using fitness_pairs [of population_list] by simp
  show ?thesis
  proof (cases "fst c = 0")
    case True
    then have "eliminate population_list (fitness population_list) P = Inr ([snd c], [0])"
      using c by (simp add: eliminate_def)
    moreover have "evaluate_gen (snd c) = 0"
      using True c(2) fitness_pairs [of population_list] by auto
    ultimately show ?thesis by (simp add: fitness_def)
  next
    case False
    let ?top = "py_take P (sort_key fst ?z)"
    have e: "eliminate population_list (fitness population_list) P
               = Inr (map snd ?top, map fst ?top)"
      using c False by (simp add: eliminate_def Let_def)
    have "\<forall>c\<in>set ?top. fst c = evaluate_gen (snd c)"
      using cons set_py_take [of P "sort_key fst ?z"] by blast
    then have "map fst ?top = fitness (map snd ?top)"
      by (simp add: fitness_def)
    then show ?thesis using e by (simp add: fitness_def)
  qed
qed

theorem eliminate_keeps_scores_consistent_witness:
  "[[0, 0, 0], [0, 2, 1], [0, 2, 0 :: int]] \<noteq> []
   \<and> eliminate [[0, 0, 0], [0, 2, 1], [0, 2, 0]] (fitness [[0, 0, 0], [0, 2, 1], [0, 2, 0]]) 2
       = Inr ([[0, 2, 1], [0, 2, 0]], [1, 1])
   \<and> fitness [[0, 2, 1], [0, 2, 0]] = [1, 1]"
proof -
  have h: "[[0, 0, 0], [0, 2, 1], [0, 2, 0 :: int]] \<noteq> []" by simp
  have f: "fitness [[0, 0, 0], [0, 2, 1], [0, 2, 0]] = [3, 1, 1]"
    by (simp add: fitness_def evaluate_gen_def conflict_def upt_rec)
  have f': "fitness [[0, 2, 1], [0, 2, 0]] = [1, 1]"
    by (simp add: fitness_def evaluate_gen_def conflict_def upt_rec)
  show ?thesis
    using eliminate_keeps_scores_consistent [OF h, of 2] f f'
    by (auto simp: eliminate_def py_take_def slice_index_def)
qed

section \<open>The number of mutated boards\<close>

text \<open>
  The rounding model: \<open>ilog2\<close> is the binary exponent, and \<open>float_round\<close> moves a number by
  at most half the spacing of the floats at that exponent.
\<close>

lemma bit_length_bounds:
  "0 < n \<Longrightarrow> 2 ^ (bit_length n - 1) \<le> n \<and> n < 2 ^ bit_length n"
proof (induction n rule: bit_length.induct)
  case (1 n)
  show ?case
  proof (cases "n div 2 = 0")
    case True
    with 1(2) have "n = 1" by (simp add: div_eq_0_iff) 
    then show ?thesis by (simp add: bit_length.simps)
  next
    case False
    then have pos: "0 < n div 2" by simp
    from 1(2) have n0: "n \<noteq> 0" by simp
    from 1(1) [OF n0 pos] have
      lo: "2 ^ (bit_length (n div 2) - 1) \<le> n div 2" and hi: "n div 2 < 2 ^ bit_length (n div 2)"
      by simp_all
    have bl: "bit_length n = Suc (bit_length (n div 2))"
      using n0 by (subst bit_length.simps) simp
    have "0 < bit_length (n div 2)"
      using pos by (subst bit_length.simps) simp
    then have "(2::nat) ^ bit_length (n div 2) = 2 * 2 ^ (bit_length (n div 2) - 1)"
      by (cases "bit_length (n div 2)") simp_all
    then have "(2::nat) ^ bit_length (n div 2) \<le> n"
      using lo by linarith
    moreover have "n < 2 * 2 ^ bit_length (n div 2)"
      using hi by linarith
    ultimately show ?thesis by (simp add: bl)
  qed
qed

lemma ilog2_bounds:
  assumes "0 < x"
  shows "2 powi ilog2 x \<le> x \<and> x < 2 powi (ilog2 x + 1)"
proof (cases "1 \<le> x")
  case True
  define k where "k = nat \<lfloor>x\<rfloor>"
  have k: "0 < k" "of_nat k \<le> x" "x < of_nat k + 1"
    using True by (simp_all add: k_def le_floor_iff) linarith+
  from bit_length_bounds [OF k(1)] have
    b: "2 ^ (bit_length k - 1) \<le> k" "k + 1 \<le> 2 ^ bit_length k" by simp_all
  have blpos: "0 < bit_length k" using k(1) by (subst bit_length.simps) simp
  have e: "ilog2 x = int (bit_length k - 1)" "ilog2 x + 1 = int (bit_length k)"
    using True blpos by (simp_all add: ilog2_def k_def)
  have "(of_nat (2 ^ (bit_length k - 1)) :: rat) \<le> of_nat k"
    using b(1) by (simp only: of_nat_le_iff)
  then have r1: "(2::rat) ^ (bit_length k - 1) \<le> of_nat k" by simp
  have "(of_nat (k + 1) :: rat) \<le> of_nat (2 ^ bit_length k)"
    using b(2) by (simp only: of_nat_le_iff)
  then have r2: "(of_nat k :: rat) + 1 \<le> 2 ^ bit_length k" by simp
  have p1: "(2::rat) powi ilog2 x = 2 ^ (bit_length k - 1)"
    by (simp only: e(1) power_int_of_nat)
  have p2: "(2::rat) powi (ilog2 x + 1) = 2 ^ bit_length k"
    by (simp only: e(2) power_int_of_nat)
  show ?thesis
    unfolding p1 p2 using r1 r2 k(2,3) by linarith
next
  case False
  define c where "c = nat \<lceil>1 / x\<rceil>"
  have y: "1 < 1 / x" using assms False by simp
  then have "2 \<le> \<lceil>1 / x\<rceil>" by (simp add: le_ceiling_iff)
  then have c: "0 < c - 1" "1 / x \<le> of_nat c" "of_nat (c - 1) < 1 / x"
    unfolding c_def by (simp_all add: le_of_int_ceiling of_nat_diff) linarith+
  define k where "k = bit_length (c - 1)"
  from bit_length_bounds [OF c(1)] have
    b1: "2 ^ (k - 1) \<le> c - 1" and b2: "c - 1 < 2 ^ k"
    unfolding k_def by simp_all
  from b2 c(1) have b3: "c \<le> 2 ^ k" by linarith
  have kpos: "0 < k" unfolding k_def using c(1) by (subst bit_length.simps) simp
  have e: "ilog2 x = - int k" using False by (simp add: ilog2_def c_def k_def)
  have "(of_nat c :: rat) \<le> of_nat (2 ^ k)"
    using b3 by (simp only: of_nat_le_iff)
  then have "(of_nat c :: rat) \<le> 2 ^ k" by simp
  then have "1 / x \<le> 2 ^ k" using c(2) by linarith
  then have lo: "1 / 2 ^ k \<le> x"
    using assms by (simp add: field_simps)
  have "(of_nat (2 ^ (k - 1)) :: rat) \<le> of_nat (c - 1)"
    using b1 by (simp only: of_nat_le_iff)
  then have "(2::rat) ^ (k - 1) \<le> of_nat (c - 1)" by simp
  then have "2 ^ (k - 1) < 1 / x" using c(3) by linarith
  then have hi: "x < 1 / 2 ^ (k - 1)"
    using assms by (simp add: field_simps)
  have p1: "(2::rat) powi (- int k) = 1 / 2 ^ k"
    by (simp only: power_int_minus power_int_of_nat inverse_eq_divide)
  have q: "- int k + 1 = - int (k - 1)" using kpos by simp
  have p2: "(2::rat) powi (- int k + 1) = 1 / 2 ^ (k - 1)"
    unfolding q by (simp only: power_int_minus power_int_of_nat inverse_eq_divide)
  show ?thesis
    using lo hi by (simp only: e p1 p2 simp_thms)
qed

lemma round_half_even_error: "\<bar>of_int (round_half_even x) - x\<bar> \<le> 1 / 2"
proof -
  have f: "of_int \<lfloor>x\<rfloor> \<le> x" "x < of_int \<lfloor>x\<rfloor> + 1" by linarith+
  show ?thesis
    unfolding round_half_even_def Let_def using f by (simp add: abs_le_iff)
qed

lemma float_round_error:
  assumes "x \<noteq> 0"
  shows "\<bar>float_round x - x\<bar> \<le> 2 powi (max (ilog2 \<bar>x\<bar>) (- 1022) - 52) / 2"
proof -
  define u :: rat where "u = 2 powi (max (ilog2 \<bar>x\<bar>) (- 1022) - 52)"
  define r where "r = round_half_even (\<bar>x\<bar> / u)"
  have u: "0 < u" by (simp add: u_def)
  have fr: "float_round x = sgn x * of_int r * u"
    using assms by (simp add: float_round_def Let_def u_def r_def)
  have x: "x = sgn x * (\<bar>x\<bar> / u) * u"
    using u by (simp add: sgn_if abs_if)
  have "float_round x - x = sgn x * u * (of_int r - \<bar>x\<bar> / u)"
    by (subst (2) x) (simp add: fr algebra_simps)
  then have "\<bar>float_round x - x\<bar> = u * \<bar>of_int r - \<bar>x\<bar> / u\<bar>"
    using assms u by (simp add: abs_mult abs_sgn_eq)
  also have "\<dots> \<le> u * (1 / 2)"
    using round_half_even_error [of "\<bar>x\<bar> / u"] u
    unfolding r_def by (intro mult_left_mono) simp_all
  finally show ?thesis by (simp add: u_def)
qed

lemma bit_length_le: "n < 2 ^ k \<Longrightarrow> bit_length n \<le> k"
proof (induction k arbitrary: n)
  case 0
  then show ?case by (simp add: bit_length.simps)
next
  case (Suc k)
  show ?case
  proof (cases "n = 0")
    case True
    then show ?thesis by (simp add: bit_length.simps)
  next
    case False
    from Suc.prems have "n div 2 < 2 ^ k" by simp
    then have "bit_length (n div 2) \<le> k" by (rule Suc.IH)
    with False show ?thesis by (subst bit_length.simps) simp
  qed
qed

lemma ilog2_le_52:
  assumes "0 < x" "x < 2 ^ 53"
  shows "ilog2 x \<le> 52"
proof (cases "1 \<le> x")
  case True
  have "\<lfloor>x\<rfloor> < 2 ^ 53"
    using assms(2) by (simp add: floor_less_iff)
  then have "nat \<lfloor>x\<rfloor> < 2 ^ 53"
    using True by (simp add: nat_less_iff)
  then have "bit_length (nat \<lfloor>x\<rfloor>) \<le> 53" by (rule bit_length_le)
  with True show ?thesis by (simp add: ilog2_def)
next
  case False
  then show ?thesis by (simp add: ilog2_def)
qed

lemma round_half_even_bounds: "\<lfloor>x\<rfloor> \<le> round_half_even x \<and> round_half_even x \<le> \<lceil>x\<rceil>"
proof -
  have "\<lfloor>x\<rfloor> + 1 \<le> \<lceil>x\<rceil>" if "x \<noteq> of_int \<lfloor>x\<rfloor>"
    using that by (metis ceiling_altdef order_refl)
  moreover have "x \<noteq> of_int \<lfloor>x\<rfloor>" if "1 / 2 \<le> x - of_int \<lfloor>x\<rfloor>"
    using that by auto
  ultimately show ?thesis
    by (auto simp: round_half_even_def Let_def not_less floor_le_ceiling)
qed

text \<open>Rounding a value below \<open>2 ^ 53\<close> never crosses an integer.\<close>

lemma float_round_between:
  assumes "0 \<le> x" "x < 2 ^ 53"
  shows "of_int k \<le> x \<Longrightarrow> of_int k \<le> float_round x"
    and "x \<le> of_int k \<Longrightarrow> float_round x \<le> of_int k"
proof -
  show "of_int k \<le> float_round x" if k: "of_int k \<le> x"
  proof (cases "x = 0")
    case True
    with k show ?thesis by (simp add: float_round_def)
  next
    case False
    with assms have pos: "0 < x" by simp
    define e where "e = max (ilog2 x) (- 1022)"
    define T :: nat where "T = 2 ^ nat (52 - e)"
    have e: "e \<le> 52" using ilog2_le_52 [OF pos assms(2)] by (simp add: e_def)
    have u: "(2::rat) powi (e - 52) = 1 / of_nat T"
      using e by (simp add: power_int_def T_def field_simps)
    have T: "0 < T" by (simp add: T_def)
    have fr: "float_round x = of_int (round_half_even (x * of_nat T)) / of_nat T"
      using pos u by (simp add: float_round_def e_def [symmetric] Let_def)
    have "of_int (k * int T) \<le> x * of_nat T"
      using k T by (simp add: mult_right_mono)
    then have "k * int T \<le> \<lfloor>x * of_nat T\<rfloor>"
      by (simp only: le_floor_iff)
    also have "\<dots> \<le> round_half_even (x * of_nat T)"
      using round_half_even_bounds by blast
    finally have "(of_int (k * int T) :: rat) \<le> of_int (round_half_even (x * of_nat T))"
      by (simp only: of_int_le_iff)
    then have "(of_int k :: rat) * of_nat T \<le> of_int (round_half_even (x * of_nat T))"
      by simp
    then show ?thesis
      using T by (simp add: fr pos_le_divide_eq)
  qed
  show "float_round x \<le> of_int k" if k: "x \<le> of_int k"
  proof (cases "x = 0")
    case True
    with k show ?thesis by (simp add: float_round_def)
  next
    case False
    with assms have pos: "0 < x" by simp
    define e where "e = max (ilog2 x) (- 1022)"
    define T :: nat where "T = 2 ^ nat (52 - e)"
    have e: "e \<le> 52" using ilog2_le_52 [OF pos assms(2)] by (simp add: e_def)
    have u: "(2::rat) powi (e - 52) = 1 / of_nat T"
      using e by (simp add: power_int_def T_def field_simps)
    have T: "0 < T" by (simp add: T_def)
    have fr: "float_round x = of_int (round_half_even (x * of_nat T)) / of_nat T"
      using pos u by (simp add: float_round_def e_def [symmetric] Let_def)
    have "x * of_nat T \<le> of_int (k * int T)"
      using k T by (simp add: mult_right_mono)
    then have "\<lceil>x * of_nat T\<rceil> \<le> k * int T"
      by (simp only: ceiling_le_iff)
    moreover have "round_half_even (x * of_nat T) \<le> \<lceil>x * of_nat T\<rceil>"
      using round_half_even_bounds by blast
    ultimately have "round_half_even (x * of_nat T) \<le> k * int T" by linarith
    then have "(of_int (round_half_even (x * of_nat T)) :: rat) \<le> of_int (k * int T)"
      by (simp only: of_int_le_iff)
    then have "(of_int (round_half_even (x * of_nat T)) :: rat) \<le> of_int k * of_nat T"
      by simp
    then show ?thesis
      using T by (simp add: fr pos_divide_le_eq)
  qed
qed

lemma float_of_int_exact:
  assumes "0 \<le> k" "k < 2 ^ 53"
  shows "float_of_int k = of_int k"
proof -
  have "(of_int k :: rat) < 2 ^ 53"
    using assms(2) by simp
  moreover have "(0::rat) \<le> of_int k" using assms(1) by simp
  ultimately have "of_int k \<le> float_round (of_int k)" "float_round (of_int k) \<le> of_int k"
    using float_round_between [of "of_int k" k] by simp_all
  then show ?thesis by (simp add: float_of_int_def)
qed

text \<open>The number of boards that \<open>mutation\<close> chooses among \<open>m\<close> candidates.\<close>

lemma mutation_count_bounds:
  assumes "m < 2 ^ 53" "0 \<le> R" "R \<le> 1"
  shows "\<lfloor>of_nat m * R\<rfloor> \<le> py_int (float_mul (float_of_int (int m)) R)"
    and "py_int (float_mul (float_of_int (int m)) R) \<le> \<lfloor>of_nat m * R\<rfloor> + 1"
    and "py_int (float_mul (float_of_int (int m)) R) \<le> int m"
    and "0 \<le> py_int (float_mul (float_of_int (int m)) R)"
proof -
  let ?x = "of_nat m * R"
  have m: "int m < 2 ^ 53" using assms(1) by simp
  have fi: "float_of_int (int m) = of_nat m"
    using float_of_int_exact [OF _ m] by simp
  have x0: "0 \<le> ?x" using assms(2) by simp
  have "?x \<le> of_nat m" using assms(3) by (simp add: mult_left_le)
  moreover have "(of_nat m :: rat) < 2 ^ 53"
    using assms(1) by simp
  ultimately have x53: "?x < 2 ^ 53" and xm: "?x \<le> of_int (int m)" by simp_all
  note b = float_round_between [OF x0 x53]
  have lo: "of_int \<lfloor>?x\<rfloor> \<le> float_round ?x" by (rule b(1)) simp
  have hi: "float_round ?x \<le> of_int (\<lfloor>?x\<rfloor> + 1)" by (rule b(2)) linarith
  have hm: "float_round ?x \<le> of_int (int m)" by (rule b(2)) (rule xm)
  have z: "of_int 0 \<le> float_round ?x" by (rule b(1)) (use x0 in simp)
  then have nn: "0 \<le> float_round ?x" by simp
  have c: "py_int (float_mul (float_of_int (int m)) R) = \<lfloor>float_round ?x\<rfloor>"
    using nn by (simp add: py_int_def float_mul_def fi)
  show "\<lfloor>?x\<rfloor> \<le> py_int (float_mul (float_of_int (int m)) R)"
    unfolding c using lo by (simp only: le_floor_iff)
  show "py_int (float_mul (float_of_int (int m)) R) \<le> \<lfloor>?x\<rfloor> + 1"
    unfolding c using floor_mono [OF hi] by simp
  show "py_int (float_mul (float_of_int (int m)) R) \<le> int m"
    unfolding c using floor_mono [OF hm] by simp
  show "0 \<le> py_int (float_mul (float_of_int (int m)) R)"
    unfolding c using nn by simp
qed

lemma mutation_count_zero: "py_int (float_mul x 0) = 0"
  by (simp add: py_int_def float_mul_def float_round_def)

lemma mutation_count_one:
  assumes "m < 2 ^ 53"
  shows "py_int (float_mul (float_of_int (int m)) 1) = int m"
proof -
  have m: "int m < 2 ^ 53" using assms by simp
  have fi: "float_of_int (int m) = of_nat m"
    using float_of_int_exact [OF _ m] by simp
  have "float_round (of_nat m) = of_nat m"
    using fi by (simp add: float_of_int_def)
  then show ?thesis
    by (simp add: float_mul_def fi py_int_def)
qed

section \<open>Mutation\<close>

lemma randint_ok:
  assumes "a \<le> b"
  shows "\<exists>v g'. randint a b g = Inr (v, g') \<and> a \<le> v \<and> v \<le> b"
proof -
  obtain r g' where d: "draw g = (r, g')" by (cases "draw g")
  have "int (r mod nat (b - a + 1)) < b - a + 1"
    using assms by (metis add_strict_increasing2 diff_ge_0_iff_ge mod_less_divisor nat_int
        zero_less_nat_eq zero_less_one zless_nat_conj)
  then show ?thesis
    using assms d by (simp add: randint_def)
qed

lemma shuffle_loop_mset:
  "i < length x \<Longrightarrow> mset (fst (shuffle_loop i x g)) = mset x"
proof (induction i arbitrary: x g)
  case 0
  then show ?case by simp
next
  case (Suc i)
  obtain r g' where d: "draw g = (r, g')" by (cases "draw g")
  let ?j = "r mod (Suc i + 1)"
  let ?x = "x[Suc i := x ! ?j, ?j := x ! Suc i]"
  have j: "?j < length x"
    using Suc.prems by (metis Suc_eq_plus1 Suc_lessI less_trans_Suc mod_less_divisor
        not_less_eq zero_less_Suc)
  have "mset ?x = mset x"
    using Suc.prems by (rule mset_swap [OF j])
  moreover have "i < length ?x" using Suc.prems by simp
  ultimately show ?case
    using Suc.IH [of ?x g'] d by (simp add: Let_def)
qed

lemma shuffle_mset: "mset (fst (shuffle x g)) = mset x"
proof (cases x)
  case Nil
  then show ?thesis by (simp add: shuffle_def)
next
  case (Cons a as)
  then have "length x - 1 < length x" by simp
  then show ?thesis unfolding shuffle_def by (rule shuffle_loop_mset)
qed

lemma chosen_ones_pool:
  "distinct (fst (chosen_ones pop R g))
   \<and> set (fst (chosen_ones pop R g)) \<subseteq> {length pop div 2..<length pop}"
proof -
  define pool where "pool = [length pop div 2..<length pop]"
  obtain sh g1 where s: "shuffle pool g = (sh, g1)" by (cases "shuffle pool g")
  have m: "mset sh = mset pool"
    using shuffle_mset [of pool g] s by simp
  then have "distinct sh"
    by (metis distinct_upt mset_eq_imp_distinct_iff pool_def)
  moreover have "set sh = {length pop div 2..<length pop}"
    using m by (metis mset_eq_setD set_upt pool_def)
  ultimately show ?thesis
    using s set_take_subset [of _ sh]
    by (auto simp: chosen_ones_def py_take_def pool_def [symmetric])
qed

lemma slice_index_le: "slice_index k len \<le> len"
  by (simp add: slice_index_def nat_le_iff)

lemma length_py_take: "length (py_take k xs) = slice_index k (length xs)"
  by (simp add: py_take_def min_absorb1 slice_index_le)

lemma chosen_ones_length:
  "length (fst (chosen_ones pop R g))
     = slice_index (py_int (float_mul (float_of_int (int (length pop - length pop div 2))) R))
         (length pop - length pop div 2)"
proof -
  define pool where "pool = [length pop div 2..<length pop]"
  obtain sh g1 where s: "shuffle pool g = (sh, g1)" by (cases "shuffle pool g")
  have "mset sh = mset pool"
    using shuffle_mset [of pool g] s by simp
  then have "length sh = length pool"
    by (rule mset_eq_length)
  then have l: "length sh = length pop - length pop div 2" by (simp add: pool_def)
  have "length (py_take k sh) = slice_index k (length pop - length pop div 2)" for k
    by (simp only: length_py_take l)
  then show ?thesis
    using s l by (simp add: chosen_ones_def pool_def [symmetric])
qed

lemma mutate_chosen_effect:
  assumes "distinct chosen"
    and "\<forall>i\<in>set chosen. i < length pop"
    and "\<forall>b\<in>set pop. int (length b) = n"
    and "1 \<le> n"
  shows "\<exists>pop' g'. mutate_chosen chosen n pop g = Inr (pop', g')
           \<and> length pop' = length pop
           \<and> (\<forall>i<length pop. i \<notin> set chosen \<longrightarrow> pop' ! i = pop ! i)
           \<and> (\<forall>i\<in>set chosen. \<exists>col val. col < nat n \<and> 0 \<le> val \<and> val < n
                                  \<and> pop' ! i = (pop ! i)[col := val])"
  using assms
proof (induction chosen arbitrary: pop g)
  case Nil
  then show ?case by simp
next
  case (Cons i chosen)
  from Cons.prems(4) have r: "(0::int) \<le> n - 1" by simp
  obtain col g1 where c: "randint 0 (n - 1) g = Inr (col, g1)" "0 \<le> col" "col \<le> n - 1"
    using randint_ok [OF r, of g] by blast
  obtain val g2 where v: "randint 0 (n - 1) g1 = Inr (val, g2)" "0 \<le> val" "val \<le> n - 1"
    using randint_ok [OF r, of g1] by blast
  have i: "i < length pop" using Cons.prems(2) by simp
  have li: "int (length (pop ! i)) = n" using Cons.prems(3) i by simp
  have col: "nat col < length (pop ! i)" "nat col < nat n"
    using c li by linarith+
  let ?pop1 = "pop[i := (pop ! i)[nat col := val]]"
  have step: "mutate_chosen (i # chosen) n pop g = mutate_chosen chosen n ?pop1 g2"
    using c v i col by simp
  have d: "distinct chosen" "i \<notin> set chosen" using Cons.prems(1) by simp_all
  have b1: "\<forall>j\<in>set chosen. j < length ?pop1" using Cons.prems(2) by simp
  have b2: "\<forall>b\<in>set ?pop1. int (length b) = n"
  proof
    fix b assume "b \<in> set ?pop1"
    then have "b \<in> insert ((pop ! i)[nat col := val]) (set pop)"
      using set_update_subset_insert by fastforce
    then show "int (length b) = n" using li Cons.prems(3) by auto
  qed
  from Cons.IH [OF d(1) b1 b2 Cons.prems(4), of g2] obtain pop' g' where
    r: "mutate_chosen chosen n ?pop1 g2 = Inr (pop', g')"
       "length pop' = length ?pop1"
       "\<forall>j<length ?pop1. j \<notin> set chosen \<longrightarrow> pop' ! j = ?pop1 ! j"
       "\<forall>j\<in>set chosen. \<exists>col val. col < nat n \<and> 0 \<le> val \<and> val < n
                                  \<and> pop' ! j = (?pop1 ! j)[col := val]"
    by blast
  have "pop' ! i = (pop ! i)[nat col := val]"
    using r(3) d(2) i by simp
  then have here: "\<exists>col val. col < nat n \<and> 0 \<le> val \<and> val < n \<and> pop' ! i = (pop ! i)[col := val]"
    using col(2) v by (intro exI [of _ "nat col"] exI [of _ val]) simp
  have others: "\<exists>col val. col < nat n \<and> 0 \<le> val \<and> val < n \<and> pop' ! j = (pop ! j)[col := val]"
    if "j \<in> set chosen" for j
  proof -
    from that d(2) have "j \<noteq> i" by auto
    then have "?pop1 ! j = pop ! j" by simp
    with r(4) that show ?thesis by metis
  qed
  have unchanged: "pop' ! j = pop ! j" if "j < length pop" "j \<notin> set (i # chosen)" for j
  proof -
    from that have "j \<noteq> i" "j \<notin> set chosen" by auto
    then show ?thesis using r(3) that(1) by simp
  qed
  show ?case
    using step r(1,2) here others unchanged by auto
qed

lemma mutation_effect:
  assumes "1 \<le> n" and "\<forall>b\<in>set pop. int (length b) = n"
  shows "\<exists>pop' g'. mutation pop R n g = Inr (pop', g')
           \<and> length pop' = length pop
           \<and> (\<forall>i<length pop. i \<notin> set (fst (chosen_ones pop R g)) \<longrightarrow> pop' ! i = pop ! i)
           \<and> (\<forall>i\<in>set (fst (chosen_ones pop R g)).
                 \<exists>col val. col < nat n \<and> 0 \<le> val \<and> val < n
                           \<and> pop' ! i = (pop ! i)[col := val])"
proof -
  obtain chosen g1 where c: "chosen_ones pop R g = (chosen, g1)"
    by (cases "chosen_ones pop R g")
  have d: "distinct chosen" and s: "set chosen \<subseteq> {length pop div 2..<length pop}"
    using chosen_ones_pool [of pop R g] c by simp_all
  from s have b: "\<forall>i\<in>set chosen. i < length pop" by auto
  have m: "mutation pop R n g = mutate_chosen chosen n pop g1"
    using c by (simp add: mutation_def)
  have f: "fst (chosen_ones pop R g) = chosen"
    using c by simp
  show ?thesis
    unfolding m f by (rule mutate_chosen_effect [OF d b assms(2,1)])
qed

lemma pool_size_small:
  "length pop < 2 ^ 53 \<Longrightarrow> length pop - length pop div 2 < (2::nat) ^ 53"
  by (rule le_less_trans [OF diff_le_self])

lemma chosen_count:
  assumes "length pop < 2 ^ 53" "0 \<le> R" "R \<le> 1"
  shows "int (length (fst (chosen_ones pop R g)))
           = py_int (float_mul (float_of_int (int (length pop - length pop div 2))) R)"
proof -
  define m where "m = length pop - length pop div 2"
  define k where "k = py_int (float_mul (float_of_int (int m)) R)"
  have m: "m < 2 ^ 53"
    unfolding m_def using assms(1) by (rule pool_size_small)
  have k0: "0 \<le> k" and km: "k \<le> int m"
    unfolding k_def by (rule mutation_count_bounds [OF m assms(2,3)])+
  have "slice_index k m = nat k"
    using k0 km by (simp add: slice_index_def min_def nat_le_iff)
  then have "length (fst (chosen_ones pop R g)) = nat k"
    using chosen_ones_length [of pop R g] by (simp only: k_def m_def)
  then show ?thesis
    using k0 by (simp add: k_def m_def)
qed

lemma chosen_all:
  assumes "length pop < 2 ^ 53"
  shows "set (fst (chosen_ones pop 1 g)) = {length pop div 2..<length pop}"
proof -
  let ?ch = "fst (chosen_ones pop 1 g)"
  have m: "length pop - length pop div 2 < (2::nat) ^ 53"
    using assms by (rule pool_size_small)
  have "int (length ?ch) = int (length pop - length pop div 2)"
    using chosen_count [OF assms, of 1 g] mutation_count_one [OF m] by simp
  then have "length ?ch = length pop - length pop div 2"
    by (simp only: of_nat_eq_iff)
  moreover have "card (set ?ch) = length ?ch"
    using chosen_ones_pool [of pop 1 g] by (simp add: distinct_card)
  ultimately have "card (set ?ch) = card {length pop div 2..<length pop}"
    by simp
  moreover have "set ?ch \<subseteq> {length pop div 2..<length pop}"
    using chosen_ones_pool [of pop 1 g] by simp
  ultimately show ?thesis
    by (simp add: card_subset_eq)
qed

lemma chosen_none: "fst (chosen_ones pop 0 g) = []"
proof -
  have "slice_index 0 len = 0" for len
    by (simp add: slice_index_def)
  then have "length (fst (chosen_ones pop 0 g)) = 0"
    using chosen_ones_length [of pop 0 g] by (simp add: mutation_count_zero)
  then show ?thesis by simp
qed

text \<open>
  C4, as the code has it. For a population of \<open>L < 2 ^ 53\<close> boards of length \<open>N \<ge> 1\<close> and a
  rate \<open>R\<close> of \<open>[0, 1]\<close>, \<open>mutation\<close> chooses distinct positions among
  \<open>L div 2, ..., L - 1\<close>; their number is \<^verbatim>\<open>int(len(mutated_population) * mutation_rate)\<close>
  in binary64 arithmetic, which is \<open>\<lfloor>R * |pool|\<rfloor>\<close> or one more; the board at every chosen
  position has one cell, at a column of \<open>[0, N - 1]\<close>, overwritten with a value of
  \<open>[0, N - 1]\<close>, and every other board is unchanged; with \<open>R = 0\<close> the population is unchanged,
  and with \<open>R = 1\<close> every position of the pool is chosen.
\<close>

theorem mutation_spec:
  assumes "1 \<le> n"
    and "\<forall>b\<in>set pop. int (length b) = n"
    and "0 \<le> R" and "R \<le> 1"
    and "length pop < 2 ^ 53"
  shows "\<exists>pop' g' chosen.
           mutation pop R n g = Inr (pop', g')
         \<and> distinct chosen
         \<and> set chosen \<subseteq> {length pop div 2..<length pop}
         \<and> int (length chosen)
             = py_int (float_mul (float_of_int (int (length pop - length pop div 2))) R)
         \<and> \<lfloor>of_nat (length pop - length pop div 2) * R\<rfloor> \<le> int (length chosen)
         \<and> int (length chosen) \<le> \<lfloor>of_nat (length pop - length pop div 2) * R\<rfloor> + 1
         \<and> length pop' = length pop
         \<and> (\<forall>i<length pop. i \<notin> set chosen \<longrightarrow> pop' ! i = pop ! i)
         \<and> (\<forall>i\<in>set chosen. \<exists>col val. col < nat n \<and> 0 \<le> val \<and> val < n
                                  \<and> pop' ! i = (pop ! i)[col := val])
         \<and> (R = 0 \<longrightarrow> pop' = pop)
         \<and> (R = 1 \<longrightarrow> set chosen = {length pop div 2..<length pop})"
proof -
  define chosen where "chosen = fst (chosen_ones pop R g)"
  have m: "length pop - length pop div 2 < (2::nat) ^ 53"
    using assms(5) by (rule pool_size_small)
  have d: "distinct chosen" and s: "set chosen \<subseteq> {length pop div 2..<length pop}"
    using chosen_ones_pool [of pop R g] by (simp_all add: chosen_def)
  have len: "int (length chosen)
               = py_int (float_mul (float_of_int (int (length pop - length pop div 2))) R)"
    unfolding chosen_def by (rule chosen_count [OF assms(5,3,4)])
  have lo: "\<lfloor>of_nat (length pop - length pop div 2) * R\<rfloor> \<le> int (length chosen)"
    unfolding len by (rule mutation_count_bounds [OF m assms(3,4)])
  have hi: "int (length chosen) \<le> \<lfloor>of_nat (length pop - length pop div 2) * R\<rfloor> + 1"
    unfolding len by (rule mutation_count_bounds [OF m assms(3,4)])
  have "\<exists>pop' g'. mutation pop R n g = Inr (pop', g')
           \<and> length pop' = length pop
           \<and> (\<forall>i<length pop. i \<notin> set chosen \<longrightarrow> pop' ! i = pop ! i)
           \<and> (\<forall>i\<in>set chosen. \<exists>col val. col < nat n \<and> 0 \<le> val \<and> val < n
                                  \<and> pop' ! i = (pop ! i)[col := val])"
    unfolding chosen_def by (rule mutation_effect [OF assms(1,2)])
  then obtain pop' g' where
    r1: "mutation pop R n g = Inr (pop', g')" and r2: "length pop' = length pop"
    and r3: "\<forall>i<length pop. i \<notin> set chosen \<longrightarrow> pop' ! i = pop ! i"
    and r4: "\<forall>i\<in>set chosen. \<exists>col val. col < nat n \<and> 0 \<le> val \<and> val < n
                                  \<and> pop' ! i = (pop ! i)[col := val]"
    by (elim exE conjE)
  have zero: "R = 0 \<longrightarrow> pop' = pop"
  proof
    assume "R = 0"
    then have e: "chosen = []" by (simp add: chosen_def chosen_none)
    show "pop' = pop"
    proof (rule nth_equalityI)
      show "length pop' = length pop" by (rule r2)
      fix i assume "i < length pop'"
      then show "pop' ! i = pop ! i" using r2 r3 e by simp
    qed
  qed
  have one: "R = 1 \<longrightarrow> set chosen = {length pop div 2..<length pop}"
  proof
    assume "R = 1"
    then show "set chosen = {length pop div 2..<length pop}"
      unfolding chosen_def using chosen_all [OF assms(5), of g] by simp
  qed
  show ?thesis
    using r1 d s len lo hi r2 r3 r4 zero one
    by (intro exI [of _ pop'] exI [of _ g'] exI [of _ chosen] conjI)
qed

theorem mutation_spec_witness:
  "(1::int) \<le> 2
   \<and> map length [[0, 1], [1, 0], [0, 0], [1, 1 :: int]] = [2, 2, 2, 2]
   \<and> (0::rat) \<le> 1 / 2 \<and> (1 / 2 :: rat) \<le> 1
   \<and> length [[0, 1], [1, 0], [0, 0], [1, 1 :: int]] < 2 ^ 53
   \<and> mutation [[0, 1], [1, 0], [0, 0], [1, 1]] (1 / 2) 2 [1, 1, 1]
       = Inr ([[0, 1], [1, 0], [0, 1], [1, 1]], [])
   \<and> (\<exists>pop' g'. mutation [[0, 1], [1, 0], [0, 0], [1, 1]] (1 / 2) 2 [1, 1, 1] = Inr (pop', g')
         \<and> length pop' = length [[0, 1], [1, 0], [0, 0], [1, 1 :: int]])"
proof -
  have h1: "(1::int) \<le> 2" by simp
  have h2: "\<forall>b\<in>set [[0, 1], [1, 0], [0, 0], [1, 1 :: int]]. int (length b) = 2" by simp
  have h3: "(0::rat) \<le> 1 / 2" by simp
  have h4: "(1 / 2 :: rat) \<le> 1" by simp
  have h5: "length [[0, 1], [1, 0], [0, 0], [1, 1 :: int]] < 2 ^ 53" by simp
  have e: "mutation [[0, 1], [1, 0], [0, 0], [1, 1]] (1 / 2) 2 [1, 1, 1]
             = Inr ([[0, 1], [1, 0], [0, 1], [1, 1]], [])"
    by code_simp
  have "\<exists>pop' g'. mutation [[0, 1], [1, 0], [0, 0], [1, 1]] (1 / 2) 2 [1, 1, 1] = Inr (pop', g')
         \<and> length pop' = length [[0, 1], [1, 0], [0, 0], [1, 1 :: int]]"
    using mutation_spec [OF h1 h2 h3 h4 h5, of "[1, 1, 1]"] by blast
  moreover have "map length [[0, 1], [1, 0], [0, 0], [1, 1 :: int]] = [2, 2, 2, 2]"
    by simp
  ultimately show ?thesis using h1 h3 h4 h5 e by blast
qed

text \<open>
  C4 as stated fails on the number of mutated boards. After the crossover of three boards the
  population has five boards and the pool is \<open>{2, 3, 4}\<close>. The rate is the float \<^verbatim>\<open>1/3\<close>, that
  is \<^verbatim>\<open>0.3333333333333333\<close>, a number below \<open>1 / 3\<close>, so \<open>\<lfloor>R * |pool|\<rfloor> = 0\<close>; but the float
  product \<^verbatim>\<open>3 * (1/3)\<close> rounds to \<^verbatim>\<open>1.0\<close>, and one board, at position 4, is mutated. And with
  the rate \<^verbatim>\<open>0.29\<close>, whose float is below \<open>29 / 100\<close>, and a pool of 100 boards, 28 boards are
  chosen, not \<open>\<lfloor>0.29 * 100\<rfloor> = 29\<close>.
\<close>

theorem mutation_count_counterexample:
  "crossover [[0, 0, 0, 0], [0, 0, 0, 0], [0, 0, 0, 0]] 4
     = [[0, 0, 0, 0], [0, 0, 0, 0], [0, 0, 0, 0], [0, 0, 0, 0], [0, 0, 0, 0]]
   \<and> float_round (1 / 3) = 6004799503160661 / 18014398509481984
   \<and> 0 \<le> float_round (1 / 3) \<and> float_round (1 / 3) \<le> 1
   \<and> \<lfloor>of_nat (length [[0, 0, 0, 0], [0, 0, 0, 0], [0, 0, 0, 0], [0, 0, 0, 0], [0, 0, 0, 0 :: int]]
                 - length [[0, 0, 0, 0], [0, 0, 0, 0], [0, 0, 0, 0], [0, 0, 0, 0], [0, 0, 0, 0 :: int]]
                     div 2)
        * float_round (1 / 3)\<rfloor> = 0
   \<and> fst (chosen_ones [[0, 0, 0, 0], [0, 0, 0, 0], [0, 0, 0, 0], [0, 0, 0, 0], [0, 0, 0, 0]]
           (float_round (1 / 3)) [1, 2, 3, 3]) = [4]
   \<and> mutation [[0, 0, 0, 0], [0, 0, 0, 0], [0, 0, 0, 0], [0, 0, 0, 0], [0, 0, 0, 0]]
         (float_round (1 / 3)) 4 [1, 2, 3, 3]
       = Inr ([[0, 0, 0, 0], [0, 0, 0, 0], [0, 0, 0, 0], [0, 0, 0, 0], [0, 0, 0, 3]], [])
   \<and> float_round (29 / 100) = 5224175567749775 / 18014398509481984
   \<and> \<lfloor>of_nat (200 - 200 div 2) * (29 / 100 :: rat)\<rfloor> = 29
   \<and> length (fst (chosen_ones (replicate 200 [0, 0, 0, 0]) (float_round (29 / 100)) [])) = 28"
  by (intro conjI) code_simp+

section \<open>The board invariant\<close>

lemma build_individual_valid:
  assumes "1 \<le> n"
  shows "\<exists>b g'. build_individual k n g = Inr (b, g') \<and> length b = k
           \<and> (\<forall>x\<in>set b. 0 \<le> x \<and> x < n)"
proof (induction k arbitrary: g)
  case 0
  show ?case by simp
next
  case (Suc k)
  from assms have r: "(0::int) \<le> n - 1" by simp
  obtain x g1 where x: "randint 0 (n - 1) g = Inr (x, g1)" "0 \<le> x" "x \<le> n - 1"
    using randint_ok [OF r, of g] by blast
  obtain b g2 where b: "build_individual k n g1 = Inr (b, g2)" "length b = k"
      "\<forall>x\<in>set b. 0 \<le> x \<and> x < n"
    using Suc.IH [of g1] by blast
  show ?case using x b by simp
qed

lemma build_individuals_valid:
  assumes "1 \<le> n"
  shows "\<exists>bs g'. build_individuals k n g = Inr (bs, g') \<and> length bs = k
           \<and> valid_population n bs"
proof (induction k arbitrary: g)
  case 0
  show ?case by (simp add: valid_population_def)
next
  case (Suc k)
  obtain b g1 where b: "build_individual (nat n) n g = Inr (b, g1)" "length b = nat n"
      "\<forall>x\<in>set b. 0 \<le> x \<and> x < n"
    using build_individual_valid [OF assms, of "nat n" g] by blast
  have vb: "valid_board n b"
    using b(2,3) assms by (simp add: valid_board_def)
  obtain bs g2 where bs: "build_individuals k n g1 = Inr (bs, g2)" "length bs = k"
      "valid_population n bs"
    using Suc.IH [of g1] by blast
  show ?case using b(1) bs vb by (simp add: valid_population_def)
qed

lemma build_population_valid:
  assumes "1 \<le> n"
  shows "\<exists>population g'. build_population P n g = Inr (population, g')
           \<and> length population = nat P \<and> valid_population n population"
  unfolding build_population_def by (rule build_individuals_valid [OF assms])

lemma valid_board_splice:
  assumes "valid_board n a" "valid_board n b"
  shows "valid_board n (py_take d a @ py_drop d b)"
proof -
  have la: "length a = length b"
    using assms by (simp add: valid_board_def)
  have "slice_index d (length b) \<le> length b" by (rule slice_index_le)
  then have "length (py_take d a @ py_drop d b) = length b"
    by (simp add: length_py_take py_drop_def la)
  moreover have "set (py_take d a @ py_drop d b) \<subseteq> set a \<union> set b"
    using set_take_subset [of _ a] set_drop_subset [of _ b]
    by (auto simp: py_take_def py_drop_def)
  ultimately show ?thesis
    using assms by (auto simp: valid_board_def)
qed

lemma crossover_valid:
  assumes "valid_population n pop"
  shows "valid_population n (crossover pop n)"
proof -
  let ?f = "\<lambda>k. py_take (n div 2) (pop ! (2 * k)) @ py_drop (n div 2) (pop ! (2 * k + 1))"
  let ?g = "\<lambda>k. py_take (n div 2) (pop ! (2 * k + 1)) @ py_drop (n div 2) (pop ! (2 * k))"
  have v: "valid_board n (pop ! i)" if "i < length pop" for i
    using assms that by (simp add: valid_population_def)
  have "valid_board n (?f k) \<and> valid_board n (?g k)" if "k < length pop div 2" for k
  proof -
    from that have "2 * k < length pop" "2 * k + 1 < length pop" by auto
    then show ?thesis by (simp add: valid_board_splice v del: One_nat_def)
  qed
  then have "\<forall>b\<in>set (concat (map (\<lambda>k. [?f k, ?g k]) [0..<length pop div 2])). valid_board n b"
    by auto
  then show ?thesis
    using assms unfolding crossover_unfold valid_population_def by auto
qed

lemma crossover_nonempty: "pop \<noteq> [] \<Longrightarrow> crossover pop n \<noteq> []"
  by (simp add: crossover_unfold)

lemma valid_board_update:
  assumes "valid_board n b" "0 \<le> val" "val < n"
  shows "valid_board n (b[col := val])"
proof -
  have "set (b[col := val]) \<subseteq> insert val (set b)"
    by (rule set_update_subset_insert)
  then show ?thesis
    using assms by (auto simp: valid_board_def)
qed

lemma mutation_valid:
  assumes "1 \<le> n" "valid_population n pop"
  shows "\<exists>pop' g'. mutation pop R n g = Inr (pop', g')
           \<and> length pop' = length pop \<and> valid_population n pop'"
proof -
  have l: "\<forall>b\<in>set pop. int (length b) = n"
    using assms(2) by (simp add: valid_population_def valid_board_def)
  from mutation_effect [OF assms(1) l, of R g] obtain pop' g' where
    r1: "mutation pop R n g = Inr (pop', g')" and r2: "length pop' = length pop"
    and r3: "\<forall>i<length pop. i \<notin> set (fst (chosen_ones pop R g)) \<longrightarrow> pop' ! i = pop ! i"
    and r4: "\<forall>i\<in>set (fst (chosen_ones pop R g)).
                 \<exists>col val. col < nat n \<and> 0 \<le> val \<and> val < n
                           \<and> pop' ! i = (pop ! i)[col := val]"
    by (elim exE conjE)
  have "valid_board n (pop' ! i)" if i: "i < length pop'" for i
  proof (cases "i \<in> set (fst (chosen_ones pop R g))")
    case True
    with r4 obtain col val where "0 \<le> val" "val < n" "pop' ! i = (pop ! i)[col := val]"
      by blast
    moreover have "valid_board n (pop ! i)"
      using assms(2) i r2 by (simp add: valid_population_def)
    ultimately show ?thesis by (simp add: valid_board_update)
  next
    case False
    with r3 i r2 have "pop' ! i = pop ! i" by simp
    then show ?thesis using assms(2) i r2 by (simp add: valid_population_def)
  qed
  then have "valid_population n pop'"
    by (auto simp: valid_population_def in_set_conv_nth)
  with r1 r2 show ?thesis by blast
qed

lemma eliminate_fitness:
  assumes "pop \<noteq> []"
  shows "\<exists>bs ss. eliminate pop (fitness pop) P = Inr (bs, ss)
           \<and> set bs \<subseteq> set pop \<and> ss = fitness bs \<and> sorted ss
           \<and> (1 \<le> P \<longrightarrow> bs \<noteq> [])
           \<and> (0 \<in> set ss \<longrightarrow> (\<exists>b. bs = [b] \<and> evaluate_gen b = 0))"
proof -
  let ?z = "zip (fitness pop) pop"
  have len: "length (fitness pop) = length pop"
    by (simp add: fitness_def)
  from combined_first [OF len assms] obtain c cs where
    c: "sort_key fst ?z = c # cs" "fst c = Min (set (fitness pop))" "c \<in> set ?z"
    by blast
  have cons: "\<forall>c\<in>set (sort_key fst ?z). fst c = evaluate_gen (snd c)"
    using fitness_pairs [of pop] by simp
  have sub: "snd ` set (sort_key fst ?z) \<subseteq> set pop"
    by (auto dest: set_zip_rightD)
  show ?thesis
  proof (cases "fst c = 0")
    case True
    then have e: "eliminate pop (fitness pop) P = Inr ([snd c], [0])"
      using c by (simp add: eliminate_def)
    have "evaluate_gen (snd c) = 0"
      using True cons c(1) by (metis list.set_intros(1))
    moreover have "snd c \<in> set pop"
      using c(3) by (metis prod.collapse set_zip_rightD)
    ultimately show ?thesis
      using e by (simp add: fitness_def)
  next
    case False
    let ?top = "py_take P (sort_key fst ?z)"
    have e: "eliminate pop (fitness pop) P = Inr (map snd ?top, map fst ?top)"
      using c False by (simp add: eliminate_def Let_def)
    have t: "set ?top \<subseteq> set (sort_key fst ?z)"
      by (rule set_py_take)
    have "\<forall>c\<in>set ?top. fst c = evaluate_gen (snd c)"
      using cons t by blast
    then have f: "map fst ?top = fitness (map snd ?top)"
      by (simp add: fitness_def)
    have s: "set (map snd ?top) \<subseteq> set pop"
      using t sub by auto
    have "map fst ?top = take (slice_index P (length (sort_key fst ?z))) (map fst (sort_key fst ?z))"
      by (simp add: py_take_def take_map)
    then have srt: "sorted (map fst ?top)"
      by (simp add: sorted_wrt_take)
    have ne: "map snd ?top \<noteq> []" if "1 \<le> P"
    proof -
      from that have "?top = take (nat P) (c # cs)"
        by (simp add: py_take_nonneg c(1))
      also have "\<dots> \<noteq> []" using that by (cases "nat P") auto
      finally show ?thesis by simp
    qed
    have nz: "0 \<notin> set (map fst ?top)"
    proof
      assume "0 \<in> set (map fst ?top)"
      then have "0 \<in> set (fitness pop)"
        using t by (auto dest: set_zip_leftD)
      then have "Min (set (fitness pop)) \<le> 0" by simp
      moreover have "0 \<le> Min (set (fitness pop))"
        using assms by (simp add: fitness_def evaluate_gen_nonneg)
      ultimately show False using False c(2) by simp
    qed
    show ?thesis
      using e f s srt ne nz by simp
  qed
qed

lemma valid_population_subset:
  "valid_population n pop \<Longrightarrow> set bs \<subseteq> set pop \<Longrightarrow> valid_population n bs"
  by (auto simp: valid_population_def)

text \<open>
  C8. The board invariant (length \<open>N\<close>, every value in \<open>[0, N - 1]\<close>) holds for the \<open>P\<close> boards
  that \<open>build_population\<close> makes, and \<open>crossover\<close>, \<open>mutation\<close> and \<open>eliminate\<close> preserve it;
  no stage makes the values of a board different from each other: each of them can return a
  board with a repeated value.
\<close>

theorem board_invariant:
  assumes "1 \<le> n" and "1 \<le> P"
  shows "(\<exists>population g'. build_population P n g = Inr (population, g')
            \<and> length population = nat P \<and> valid_population n population)
       \<and> (valid_population n pop \<longrightarrow> valid_population n (crossover pop n))
       \<and> (valid_population n pop \<longrightarrow>
            (\<exists>pop' g'. mutation pop R n g = Inr (pop', g') \<and> valid_population n pop'))
       \<and> (valid_population n pop \<and> pop \<noteq> [] \<longrightarrow>
            (\<exists>boards scores. eliminate pop (fitness pop) P = Inr (boards, scores)
               \<and> valid_population n boards))
       \<and> build_population 1 2 [] = Inr ([[0, 0]], [])
       \<and> crossover [[0, 1], [1, 0]] 2 = [[0, 1], [1, 0], [0, 0], [1, 1]]
       \<and> mutation [[0, 1]] 1 2 [0, 1] = Inr ([[1, 1]], [])
       \<and> eliminate [[1, 1]] (fitness [[1, 1]]) 1 = Inr ([[1, 1]], [1])"
proof (intro conjI impI)
  show "\<exists>population g'. build_population P n g = Inr (population, g')
            \<and> length population = nat P \<and> valid_population n population"
    by (rule build_population_valid [OF assms(1)])
  show "valid_population n (crossover pop n)" if "valid_population n pop"
    using that by (rule crossover_valid)
  show "\<exists>pop' g'. mutation pop R n g = Inr (pop', g') \<and> valid_population n pop'"
    if "valid_population n pop"
    using mutation_valid [OF assms(1) that, of R g] by blast
  show "\<exists>boards scores. eliminate pop (fitness pop) P = Inr (boards, scores)
               \<and> valid_population n boards"
    if "valid_population n pop \<and> pop \<noteq> []"
  proof -
    from that have v: "valid_population n pop" and ne: "pop \<noteq> []" by simp_all
    from eliminate_fitness [OF ne, of P] obtain bs ss where
      "eliminate pop (fitness pop) P = Inr (bs, ss)" "set bs \<subseteq> set pop"
      by blast
    then show ?thesis
      using valid_population_subset [OF v] by blast
  qed
  show "build_population 1 2 [] = Inr ([[0, 0]], [])"
    by code_simp
  show "crossover [[0, 1], [1, 0]] 2 = [[0, 1], [1, 0], [0, 0], [1, 1]]"
    by code_simp
  show "mutation [[0, 1]] 1 2 [0, 1] = Inr ([[1, 1]], [])"
    by code_simp
  show "eliminate [[1, 1]] (fitness [[1, 1]]) 1 = Inr ([[1, 1]], [1])"
    by code_simp
qed

theorem board_invariant_witness:
  "(1::int) \<le> 2 \<and> (1::int) \<le> 3
   \<and> valid_population 2 [[0, 1], [1, 1], [1, 0]] \<and> [[0, 1], [1, 1], [1, 0 :: int]] \<noteq> []
   \<and> (\<exists>population g'. build_population 3 2 [1, 0, 1] = Inr (population, g')
         \<and> length population = nat 3 \<and> valid_population 2 population)
   \<and> valid_population 2 (crossover [[0, 1], [1, 1], [1, 0]] 2)
   \<and> (\<exists>pop' g'. mutation [[0, 1], [1, 1], [1, 0]] (1 / 2) 2 [1, 0, 1] = Inr (pop', g')
         \<and> valid_population 2 pop')
   \<and> (\<exists>boards scores.
         eliminate [[0, 1], [1, 1], [1, 0]] (fitness [[0, 1], [1, 1], [1, 0]]) 3
           = Inr (boards, scores)
         \<and> valid_population 2 boards)"
proof -
  have h1: "(1::int) \<le> 2" and h2: "(1::int) \<le> 3" by simp_all
  have v: "valid_population 2 [[0, 1], [1, 1], [1, 0]]"
    by (simp add: valid_population_def valid_board_def)
  have ne: "[[0, 1], [1, 1], [1, 0 :: int]] \<noteq> []" by simp
  note t = board_invariant [OF h1 h2, of "[1, 0, 1]" "[[0, 1], [1, 1], [1, 0]]" "1 / 2"]
  show ?thesis
    using t h1 h2 v ne by blast
qed

section \<open>The outer loop\<close>

lemma one_generation_ok:
  assumes "1 \<le> n" "1 \<le> P" "pop \<noteq> []" "valid_population n pop"
  shows "\<exists>pop' scores g'. one_generation n P R pop g = Inr (pop', scores, g')
           \<and> pop' \<noteq> [] \<and> valid_population n pop'
           \<and> scores = fitness pop' \<and> sorted scores
           \<and> (0 \<in> set scores \<longrightarrow> (\<exists>b. pop' = [b] \<and> evaluate_gen b = 0))"
proof -
  have c: "valid_population n (crossover pop n)" "crossover pop n \<noteq> []"
    using assms(3,4) by (simp_all add: crossover_valid crossover_nonempty)
  from mutation_valid [OF assms(1) c(1), of R g] obtain pop1 g1 where
    m: "mutation (crossover pop n) R n g = Inr (pop1, g1)"
       "length pop1 = length (crossover pop n)" "valid_population n pop1"
    by blast
  from m(2) c(2) have ne: "pop1 \<noteq> []" by auto
  from eliminate_fitness [OF ne, of P] obtain bs ss where
    e: "eliminate pop1 (fitness pop1) P = Inr (bs, ss)" "set bs \<subseteq> set pop1"
       "ss = fitness bs" "sorted ss" "1 \<le> P \<longrightarrow> bs \<noteq> []"
       "0 \<in> set ss \<longrightarrow> (\<exists>b. bs = [b] \<and> evaluate_gen b = 0)"
    by blast
  have og: "one_generation n P R pop g = Inr (bs, ss, g1)"
    using m(1) e(1) by (simp add: one_generation_def)
  have v: "valid_population n bs"
    using m(3) e(2) by (rule valid_population_subset)
  have "bs \<noteq> []" using e(5) assms(2) by simp
  with og v e(3,4,6) show ?thesis by blast
qed

lemma sorted_fitness_hd:
  assumes "sorted (fitness p)" "b' \<in> set p"
  shows "evaluate_gen (hd p) \<le> evaluate_gen b'"
proof (cases p)
  case Nil
  with assms(2) show ?thesis by simp
next
  case (Cons b bs)
  with assms show ?thesis by (auto simp: fitness_def)
qed

lemma for_generations_outcome:
  assumes "1 \<le> n" "1 \<le> P"
  shows "pop \<noteq> [] \<Longrightarrow> valid_population n pop \<Longrightarrow>
    (\<exists>b k g'. for_generations [a..<a + m] n P R pop g = Inr (Solved b (a + k))
        \<and> counted_generations [a..<a + m] n P R pop g c = Inr (Solved b (a + k), c + k)
        \<and> 1 \<le> k \<and> k \<le> m
        \<and> generations_run k n P R pop g = Inr ([b], g') \<and> evaluate_gen b = 0
        \<and> (\<forall>j. 1 \<le> j \<and> j < k \<longrightarrow> \<not> zero_reached j n P R pop g))
  \<or> (\<exists>b p g'. for_generations [a..<a + m] n P R pop g = Inr (Exhausted b)
        \<and> counted_generations [a..<a + m] n P R pop g c = Inr (Exhausted b, c + m)
        \<and> generations_run m n P R pop g = Inr (p, g') \<and> p \<noteq> [] \<and> b = hd p
        \<and> (0 < m \<or> sorted (fitness pop) \<longrightarrow> sorted (fitness p))
        \<and> (\<forall>j. 1 \<le> j \<and> j \<le> m \<longrightarrow> \<not> zero_reached j n P R pop g))"
proof (induction m arbitrary: a pop g c)
  case 0
  then obtain b bs where p: "pop = b # bs" by (cases pop) auto
  have "for_generations [a..<a + 0] n P R pop g = Inr (Exhausted b)"
    "counted_generations [a..<a + 0] n P R pop g c = Inr (Exhausted b, c + 0)"
    "generations_run 0 n P R pop g = Inr (pop, g)" "pop \<noteq> []" "b = hd pop"
    using p by simp_all
  then show ?case
    by (intro disjI2 exI [of _ b] exI [of _ pop] exI [of _ g]) simp
next
  case (Suc m)
  from one_generation_ok [OF assms Suc.prems, of R g] obtain pop1 scores g1 where
    og: "one_generation n P R pop g = Inr (pop1, scores, g1)"
    and ne: "pop1 \<noteq> []" and v: "valid_population n pop1"
    and sc: "scores = fitness pop1" and srt: "sorted scores"
    and z: "0 \<in> set scores \<longrightarrow> (\<exists>b. pop1 = [b] \<and> evaluate_gen b = 0)"
    by blast
  have upt: "[a..<a + Suc m] = a # [Suc a..<Suc a + m]"
    by (simp add: upt_conv_Cons)
  have run: "generations_run (Suc j) n P R pop g = generations_run j n P R pop1 g1" for j
    using og by simp
  have zr: "zero_reached (Suc j) n P R pop g = zero_reached j n P R pop1 g1" for j
    by (simp only: zero_reached_def run)
  have z1: "zero_reached (Suc 0) n P R pop g \<longleftrightarrow> 0 \<in> set scores"
    by (simp add: zero_reached_def og sc)
  show ?case
  proof (cases "0 \<in> set scores")
    case True
    with z obtain b where b: "pop1 = [b]" "evaluate_gen b = 0" by blast
    have "for_generations [a..<a + Suc m] n P R pop g = Inr (Solved b (a + 1))"
      "counted_generations [a..<a + Suc m] n P R pop g c = Inr (Solved b (a + 1), c + 1)"
      using og True b(1) by (simp_all only: upt for_generations.simps
          counted_generations.simps sum.case prod.case if_True list.case)
    moreover have "generations_run 1 n P R pop g = Inr ([b], g1)"
      using og b(1) by simp
    moreover have "\<forall>j. 1 \<le> j \<and> j < (1::nat) \<longrightarrow> \<not> zero_reached j n P R pop g"
      by simp
    moreover have "(1::nat) \<le> 1" "1 \<le> Suc m" by simp_all
    ultimately show ?thesis using b(2) by blast
  next
    case False
    have f: "for_generations [a..<a + Suc m] n P R pop g
               = for_generations [Suc a..<Suc a + m] n P R pop1 g1"
      "counted_generations [a..<a + Suc m] n P R pop g c
               = counted_generations [Suc a..<Suc a + m] n P R pop1 g1 (c + 1)"
      using og False by (simp_all only: upt for_generations.simps
          counted_generations.simps sum.case prod.case if_False)
    have s1: "sorted (fitness pop1)" using srt sc by simp
    from Suc.IH [OF ne v, of "Suc a" g1 "c + 1"] show ?thesis
    proof (elim disjE exE conjE)
      fix b k g'
      assume h: "for_generations [Suc a..<Suc a + m] n P R pop1 g1 = Inr (Solved b (Suc a + k))"
        "counted_generations [Suc a..<Suc a + m] n P R pop1 g1 (c + 1)
           = Inr (Solved b (Suc a + k), c + 1 + k)"
        "1 \<le> k" "k \<le> m" "generations_run k n P R pop1 g1 = Inr ([b], g')"
        "evaluate_gen b = 0"
        "\<forall>j. 1 \<le> j \<and> j < k \<longrightarrow> \<not> zero_reached j n P R pop1 g1"
      have nz: "\<not> zero_reached j n P R pop g" if "1 \<le> j \<and> j < Suc k" for j
      proof (cases j)
        case 0
        with that show ?thesis by simp
      next
        case (Suc j')
        show ?thesis
        proof (cases "j' = 0")
          case True
          with Suc False z1 show ?thesis by simp
        next
          case False
          with Suc that h(7) have "\<not> zero_reached j' n P R pop1 g1" by simp
          with Suc show ?thesis by (simp add: zr)
        qed
      qed
      have e1: "a + Suc k = Suc a + k" and e2: "c + Suc k = c + 1 + k" by simp_all
      have "for_generations [a..<a + Suc m] n P R pop g = Inr (Solved b (a + Suc k))"
        "counted_generations [a..<a + Suc m] n P R pop g c = Inr (Solved b (a + Suc k), c + Suc k)"
        using h(1,2) by (simp_all only: f e1 e2)
      moreover have "generations_run (Suc k) n P R pop g = Inr ([b], g')"
        using h(5) by (simp only: run)
      moreover have "1 \<le> Suc k" "Suc k \<le> Suc m" using h(4) by simp_all
      ultimately show ?thesis using h(6) nz by blast
    next
      fix b p g'
      assume h: "for_generations [Suc a..<Suc a + m] n P R pop1 g1 = Inr (Exhausted b)"
        "counted_generations [Suc a..<Suc a + m] n P R pop1 g1 (c + 1)
           = Inr (Exhausted b, c + 1 + m)"
        "generations_run m n P R pop1 g1 = Inr (p, g')" "p \<noteq> []" "b = hd p"
        "0 < m \<or> sorted (fitness pop1) \<longrightarrow> sorted (fitness p)"
        "\<forall>j. 1 \<le> j \<and> j \<le> m \<longrightarrow> \<not> zero_reached j n P R pop1 g1"
      have nz: "\<not> zero_reached j n P R pop g" if "1 \<le> j \<and> j \<le> Suc m" for j
      proof (cases j)
        case 0
        with that show ?thesis by simp
      next
        case (Suc j')
        show ?thesis
        proof (cases "j' = 0")
          case True
          with Suc False z1 show ?thesis by simp
        next
          case False
          with Suc that h(7) have "\<not> zero_reached j' n P R pop1 g1" by simp
          with Suc show ?thesis by (simp add: zr)
        qed
      qed
      have e2: "c + Suc m = c + 1 + m" by simp
      have "for_generations [a..<a + Suc m] n P R pop g = Inr (Exhausted b)"
        "counted_generations [a..<a + Suc m] n P R pop g c = Inr (Exhausted b, c + Suc m)"
        using h(1,2) by (simp_all only: f e2)
      moreover have "generations_run (Suc m) n P R pop g = Inr (p, g')"
        using h(3) by (simp only: run)
      moreover have "sorted (fitness p)" using h(6) s1 by simp
      ultimately show ?thesis using h(4,5) nz by blast
    qed
  qed
qed

lemma engine_run:
  assumes "1 \<le> n" "1 \<le> P"
  shows "\<exists>population g0. build_population P n g = Inr (population, g0)
     \<and> engine n P R g = for_generations [0..<nat (2 * n)] n P R population g0
     \<and> population \<noteq> [] \<and> valid_population n population"
proof -
  from build_population_valid [OF assms(1), of P g] obtain population g0 where
    b: "build_population P n g = Inr (population, g0)" "length population = nat P"
       "valid_population n population"
    by blast
  from b(2) assms(2) have "population \<noteq> []" by auto
  moreover have "engine n P R g
                   = for_generations [0..<nat (2 * n)] n P R population g0"
    using b(1) by (simp add: engine_def mult.commute)
  ultimately show ?thesis using b(1,3) by blast
qed

text \<open>
  C5. For \<open>N \<ge> 1\<close> and \<open>P \<ge> 1\<close> the engine ends in one of two outcomes. \<open>Solved b k\<close>: the
  board \<open>b\<close> has no conflicts, \<open>1 \<le> k \<le> 2N\<close>, \<open>b\<close> is the population after \<open>k\<close> generations, and
  no earlier generation ended with a board without conflicts. \<open>Exhausted b\<close>: all \<open>2N\<close>
  generations were run, none ended with a board without conflicts, and \<open>b\<close> is the first board
  of the final population, a board of lowest score there.
\<close>

theorem engine_outcomes:
  assumes "1 \<le> n" and "1 \<le> P"
  shows "\<exists>population g0. build_population P n g = Inr (population, g0) \<and>
     ((\<exists>b k g'. engine n P R g = Inr (Solved b k)
          \<and> 1 \<le> k \<and> int k \<le> 2 * n \<and> evaluate_gen b = 0
          \<and> generations_run k n P R population g0 = Inr ([b], g')
          \<and> (\<forall>j. 1 \<le> j \<and> j < k \<longrightarrow> \<not> zero_reached j n P R population g0))
      \<or> (\<exists>b p g'. engine n P R g = Inr (Exhausted b)
          \<and> generations_run (nat (2 * n)) n P R population g0 = Inr (p, g')
          \<and> p \<noteq> [] \<and> b = hd p
          \<and> (\<forall>b'\<in>set p. evaluate_gen b \<le> evaluate_gen b')
          \<and> 0 < evaluate_gen b
          \<and> (\<forall>j. 1 \<le> j \<and> j \<le> nat (2 * n) \<longrightarrow> \<not> zero_reached j n P R population g0)))"
proof -
  define m where "m = nat (2 * n)"
  have m: "0 < m" "int m = 2 * n" using assms(1) by (simp_all add: m_def)
  from engine_run [OF assms, of g R] obtain population g0 where
    b: "build_population P n g = Inr (population, g0)"
    and s: "engine n P R g = for_generations [0..<0 + m] n P R population g0"
    and ne: "population \<noteq> []" and v: "valid_population n population"
    unfolding m_def by auto
  from for_generations_outcome [OF assms ne v, of 0 m R g0 0]
  show ?thesis
  proof (elim disjE exE conjE)
    fix b k g'
    assume h: "for_generations [0..<0 + m] n P R population g0 = Inr (Solved b (0 + k))"
      "1 \<le> k" "k \<le> m" "generations_run k n P R population g0 = Inr ([b], g')"
      "evaluate_gen b = 0"
      "\<forall>j. 1 \<le> j \<and> j < k \<longrightarrow> \<not> zero_reached j n P R population g0"
    have "engine n P R g = Inr (Solved b k)"
      using h(1) s by simp
    moreover have "int k \<le> 2 * n" using h(3) m(2) by linarith
    ultimately show ?thesis using b h(2,4,5,6) by blast
  next
    fix b p g'
    assume h: "for_generations [0..<0 + m] n P R population g0 = Inr (Exhausted b)"
      "generations_run m n P R population g0 = Inr (p, g')" "p \<noteq> []" "b = hd p"
      "0 < m \<or> sorted (fitness population) \<longrightarrow> sorted (fitness p)"
      "\<forall>j. 1 \<le> j \<and> j \<le> m \<longrightarrow> \<not> zero_reached j n P R population g0"
    have e: "engine n P R g = Inr (Exhausted b)"
      using h(1) s by simp
    have srt: "sorted (fitness p)" using h(5) m(1) by simp
    have low: "\<forall>b'\<in>set p. evaluate_gen b \<le> evaluate_gen b'"
      using sorted_fitness_hd [OF srt] h(4) by simp
    have "\<not> zero_reached m n P R population g0"
      using h(6) m(1) by simp
    then have "0 \<notin> set (fitness p)"
      using h(2) by (simp add: zero_reached_def)
    moreover have "b \<in> set p" using h(3,4) by simp
    ultimately have "evaluate_gen b \<noteq> 0"
      by (auto simp: fitness_def)
    then have pos: "0 < evaluate_gen b"
      using evaluate_gen_nonneg [of b] by linarith
    show ?thesis
      using b e h(2,3,4,6) low pos unfolding m_def by blast
  qed
qed

theorem engine_outcomes_witness:
  "(1::int) \<le> 2 \<and> (1::int) \<le> 3
   \<and> engine 2 3 (1 / 2) [1, 2, 3, 3, 2, 5, 4, 3, 7, 8, 9, 4, 2, 3, 4, 6, 7, 8, 9, 0]
       = Inr (Exhausted [1, 0])
   \<and> (\<exists>b. engine 2 3 (1 / 2) [1, 2, 3, 3, 2, 5, 4, 3, 7, 8, 9, 4, 2, 3, 4, 6, 7, 8, 9, 0]
              = Inr (Exhausted b) \<and> 0 < evaluate_gen b)"
proof -
  have h1: "(1::int) \<le> 2" and h2: "(1::int) \<le> 3" by simp_all
  have e: "engine 2 3 (1 / 2) [1, 2, 3, 3, 2, 5, 4, 3, 7, 8, 9, 4, 2, 3, 4, 6, 7, 8, 9, 0]
             = Inr (Exhausted [1, 0])"
    by code_simp
  have "\<exists>b. engine 2 3 (1 / 2) [1, 2, 3, 3, 2, 5, 4, 3, 7, 8, 9, 4, 2, 3, 4, 6, 7, 8, 9, 0]
              = Inr (Exhausted b) \<and> 0 < evaluate_gen b"
    using engine_outcomes [OF h1 h2,
        of "[1, 2, 3, 3, 2, 5, 4, 3, 7, 8, 9, 4, 2, 3, 4, 6, 7, 8, 9, 0]" "1 / 2"] e
    by auto
  with h1 h2 e show ?thesis by blast
qed

text \<open>
  C6. For \<open>N \<ge> 1\<close> and \<open>P \<ge> 1\<close> the engine returns an outcome (it raises no exception, and
  every function of the model is total); the loop body is executed at most \<open>2N\<close> times, and a
  reported generation index is the number of executions, between 1 and \<open>2N\<close>.
\<close>

theorem engine_terminates:
  assumes "1 \<le> n" and "1 \<le> P"
  shows "\<exists>population g0 out cycles.
           build_population P n g = Inr (population, g0)
         \<and> engine n P R g = Inr out
         \<and> counted_generations [0..<nat (n * 2)] n P R population g0 0 = Inr (out, cycles)
         \<and> int cycles \<le> 2 * n
         \<and> (\<forall>b k. out = Solved b k \<longrightarrow> k = cycles \<and> 1 \<le> k)"
proof -
  define m where "m = nat (2 * n)"
  have m: "int m = 2 * n" "nat (n * 2) = 0 + m" using assms(1) by (simp_all add: m_def mult.commute)
  from engine_run [OF assms, of g R] obtain population g0 where
    b: "build_population P n g = Inr (population, g0)"
    and s: "engine n P R g = for_generations [0..<0 + m] n P R population g0"
    and ne: "population \<noteq> []" and v: "valid_population n population"
    unfolding m_def by auto
  from for_generations_outcome [OF assms ne v, of 0 m R g0 0]
  show ?thesis
  proof (elim disjE exE conjE)
    fix b k g'
    assume h: "for_generations [0..<0 + m] n P R population g0 = Inr (Solved b (0 + k))"
      "counted_generations [0..<0 + m] n P R population g0 0 = Inr (Solved b (0 + k), 0 + k)"
      "1 \<le> k" "k \<le> m"
    have "engine n P R g = Inr (Solved b k)"
      using h(1) s by simp
    moreover have "counted_generations [0..<nat (n * 2)] n P R population g0 0
                     = Inr (Solved b k, k)"
      using h(2) by (simp add: m(2))
    moreover have "int k \<le> 2 * n" using h(4) m(1) by linarith
    ultimately show ?thesis using b h(3) by blast
  next
    fix b p g'
    assume h: "for_generations [0..<0 + m] n P R population g0 = Inr (Exhausted b)"
      "counted_generations [0..<0 + m] n P R population g0 0 = Inr (Exhausted b, 0 + m)"
    have "engine n P R g = Inr (Exhausted b)"
      using h(1) s by simp
    moreover have "counted_generations [0..<nat (n * 2)] n P R population g0 0
                     = Inr (Exhausted b, m)"
      using h(2) by (simp add: m(2))
    moreover have "int m \<le> 2 * n" using m(1) by simp
    ultimately show ?thesis using b by blast
  qed
qed

theorem engine_terminates_witness:
  "(1::int) \<le> 2 \<and> (1::int) \<le> 3
   \<and> (\<exists>population g0 out cycles.
         build_population 3 2 [1, 2, 3] = Inr (population, g0)
       \<and> engine 2 3 (1 / 2) [1, 2, 3] = Inr out
       \<and> counted_generations [0..<nat (2 * 2)] 2 3 (1 / 2) population g0 0 = Inr (out, cycles)
       \<and> int cycles \<le> 2 * 2)"
proof -
  have h1: "(1::int) \<le> 2" and h2: "(1::int) \<le> 3" by simp_all
  have "\<exists>population g0 out cycles.
         build_population 3 2 [1, 2, 3] = Inr (population, g0)
       \<and> engine 2 3 (1 / 2) [1, 2, 3] = Inr out
       \<and> counted_generations [0..<nat (2 * 2)] 2 3 (1 / 2) population g0 0 = Inr (out, cycles)
       \<and> int cycles \<le> 2 * 2"
    using engine_terminates [OF h1 h2, of "[1, 2, 3]" "1 / 2"] by blast
  with h1 h2 show ?thesis by blast
qed

lemma valid_board_one: "valid_board 1 b \<Longrightarrow> b = [0]"
  by (cases b) (auto simp: valid_board_def)

lemma evaluate_gen_single: "length b = 1 \<Longrightarrow> evaluate_gen b = 0"
  using evaluate_gen_upper [of b] evaluate_gen_nonneg [of b] by simp

lemma last_part_examples:
  "last_part ''0.25'' = ''25''" "last_part ''1'' = ''1''" "last_part ''0.125'' = ''125''"
  "last_part ''1e-3'' = ''1e-3''"
  by (simp_all add: last_part_def)

lemma engine_returns:
  assumes "1 \<le> n" and "1 \<le> P"
  shows "\<exists>out. engine n P R g = Inr out"
proof -
  from engine_run [OF assms, of g R] obtain population g0 where
    s: "engine n P R g = for_generations [0..<0 + nat (2 * n)] n P R population g0"
    and ne: "population \<noteq> []" and v: "valid_population n population"
    by auto
  from for_generations_outcome [OF assms ne v, of 0 "nat (2 * n)" R g0 0]
  show ?thesis
  proof (elim disjE exE conjE)
    fix b k g'
    assume "for_generations [0..<0 + nat (2 * n)] n P R population g0 = Inr (Solved b (0 + k))"
    then show ?thesis using s by simp
  next
    fix b p g'
    assume "for_generations [0..<0 + nat (2 * n)] n P R population g0 = Inr (Exhausted b)"
    then show ?thesis using s by simp
  qed
qed

text \<open>
  On the inputs that pass the four checks \<^verbatim>\<open>start_algorithm\<close> draws the outcome of the loop.
\<close>

lemma start_algorithm_accepted:
  assumes "4 \<le> n" and "n \<le> 10" and "1 \<le> P" and "P \<le> 500" and "0 \<le> R" and "R \<le> 1"
    and "length (last_part mut_rate_str) \<le> 2"
  shows "\<exists>out. engine n P R g = Inr out
             \<and> start_algorithm (Some n) (Some P) mut_rate_str (Some R) g = Inr (Drawn out)"
proof -
  from assms(1) have "1 \<le> n" by simp
  from engine_returns [OF this assms(3), of R g] obtain out where
    e: "engine n P R g = Inr out" by blast
  then have "start_algorithm (Some n) (Some P) mut_rate_str (Some R) g = Inr (Drawn out)"
    using assms by (simp add: start_algorithm_def)
  with e show ?thesis by blast
qed

text \<open>
  C9, as the code has it. Every board of length 1 has fitness 0, and the loop of lines 157 to
  170, run with \<open>N = 1\<close> and any \<open>P \<ge> 1\<close>, any rate and any random source, returns
  \<open>Solved [0] 1\<close>: it ends in the first generation with the board \<open>[0]\<close>. But
  \<^verbatim>\<open>start_algorithm\<close> does not run the loop with \<open>N = 1\<close>: it accepts the board sizes 4 to 10
  only, and for \<open>N = 1\<close> it shows the message on the board size.
\<close>

theorem engine_one_queen:
  assumes "1 \<le> P"
  shows "engine 1 P R g = Inr (Solved [0] 1)
       \<and> (\<forall>b. length b = 1 \<longrightarrow> evaluate_gen b = 0)
       \<and> start_algorithm (Some 1) (Some P) mut_rate_str (Some R) g = Inr BoardSizeMessage"
proof -
  have n: "(1::int) \<le> 1" by simp
  from engine_run [OF n assms, of g R] obtain population g0 where
    s: "engine 1 P R g = for_generations [0..<nat (2 * 1)] 1 P R population g0"
    and ne: "population \<noteq> []" and v: "valid_population 1 population"
    by auto
  from one_generation_ok [OF n assms ne v, of R g0] obtain pop1 scores g1 where
    og: "one_generation 1 P R population g0 = Inr (pop1, scores, g1)"
    and ne1: "pop1 \<noteq> []" and v1: "valid_population 1 pop1"
    and sc: "scores = fitness pop1"
    and z: "0 \<in> set scores \<longrightarrow> (\<exists>b. pop1 = [b] \<and> evaluate_gen b = 0)"
    by blast
  have "hd pop1 \<in> set pop1" using ne1 by simp
  then have "valid_board 1 (hd pop1)" using v1 by (simp add: valid_population_def)
  then have "hd pop1 = [0]" by (rule valid_board_one)
  then have "evaluate_gen (hd pop1) = 0" by (simp add: evaluate_gen_single)
  then have "0 \<in> set scores"
    using \<open>hd pop1 \<in> set pop1\<close> sc by (force simp: fitness_def)
  with z obtain b where b: "pop1 = [b]" by blast
  with \<open>hd pop1 = [0]\<close> have p: "pop1 = [[0]]" by simp
  have u: "[0..<nat (2 * 1)] = [0, 1]" by (simp add: upt_rec)
  have "for_generations [0, 1] 1 P R population g0 = Inr (Solved [0] 1)"
    using og \<open>0 \<in> set scores\<close> p by simp
  then have "engine 1 P R g = Inr (Solved [0] 1)"
    using s u by simp
  moreover have "start_algorithm (Some 1) (Some P) mut_rate_str (Some R) g = Inr BoardSizeMessage"
    by (simp add: start_algorithm_def)
  ultimately show ?thesis
    using evaluate_gen_single by simp
qed

theorem engine_one_queen_witness:
  "(1::int) \<le> 2
   \<and> engine 1 2 (1 / 2) [3, 1, 4] = Inr (Solved [0] 1)
   \<and> evaluate_gen [5] = 0
   \<and> start_algorithm (Some 1) (Some 2) ''0.5'' (Some (1 / 2)) [3, 1, 4] = Inr BoardSizeMessage"
  using engine_one_queen [of 2 "1 / 2" "[3, 1, 4]" "''0.5''"] by simp

text \<open>
  C9 as stated fails on what \<^verbatim>\<open>start_algorithm\<close> does with \<open>N = 1\<close>. With the fields
  \<^verbatim>\<open>1\<close>, \<^verbatim>\<open>2\<close> and \<^verbatim>\<open>0.5\<close> the function shows the message that the board size must be between
  4 and 10; it does not draw the board \<open>[0]\<close> with generation index 1, and no generation is run.
\<close>

theorem start_algorithm_one_queen_counterexample:
  "start_algorithm (Some 1) (Some 2) ''0.5'' (Some (1 / 2)) [3, 1, 4] = Inr BoardSizeMessage
   \<and> start_algorithm (Some 1) (Some 2) ''0.5'' (Some (1 / 2)) [3, 1, 4]
       \<noteq> Inr (Drawn (Solved [0] 1))"
  by (simp add: start_algorithm_def)

end
